theory Spec2Isabelle
  imports Main "HOL-Library.Sublist"
begin

section \<open>Characters and strings\<close>

text \<open>
  A Python \<open>str\<close> is a sequence of code points. The model uses \<^typ>\<open>string\<close>, whose
  characters are the code points U+0000 to U+00FF; \<^term>\<open>length\<close> then counts code points, as
  Python's \<open>len\<close> does. The character classes below are those of Python 3 (\<open>str.lower\<close>,
  \<open>str.isdigit\<close>, and the classes \<open>\w\<close> and \<open>\s\<close> of \<open>re\<close> on a \<open>str\<close> pattern, which are the Unicode
  ones) on that range.
\<close>

definition in_range :: "nat \<Rightarrow> nat \<Rightarrow> char \<Rightarrow> bool" where
  "in_range lo hi c = (lo \<le> of_char c \<and> (of_char c :: nat) \<le> hi)"

definition is_ascii :: "char \<Rightarrow> bool" where
  "is_ascii c = in_range 0 0x7F c"

definition underscore :: char where
  "underscore = CHR ''_''"

definition py_isalnum :: "char \<Rightarrow> bool" where
  "py_isalnum c =
     (in_range 0x30 0x39 c \<or> in_range 0x41 0x5A c \<or> in_range 0x61 0x7A c \<or>
      in_range 0xAA 0xAA c \<or> in_range 0xB2 0xB3 c \<or> in_range 0xB5 0xB5 c \<or>
      in_range 0xB9 0xBA c \<or> in_range 0xBC 0xBE c \<or> in_range 0xC0 0xD6 c \<or>
      in_range 0xD8 0xF6 c \<or> in_range 0xF8 0xFF c)"

definition re_word :: "char \<Rightarrow> bool" where
  "re_word c = (py_isalnum c \<or> c = underscore)"

definition re_space :: "char \<Rightarrow> bool" where
  "re_space c =
     (in_range 0x09 0x0D c \<or> in_range 0x1C 0x20 c \<or> in_range 0x85 0x85 c \<or>
      in_range 0xA0 0xA0 c)"

definition py_isdigit :: "char \<Rightarrow> bool" where
  "py_isdigit c = (in_range 0x30 0x39 c \<or> in_range 0xB2 0xB3 c \<or> in_range 0xB9 0xB9 c)"

definition lower_char :: "char \<Rightarrow> char" where
  "lower_char c =
     (if in_range 0x41 0x5A c \<or> in_range 0xC0 0xD6 c \<or> in_range 0xD8 0xDE c
      then char_of (of_char c + (32 :: nat)) else c)"

definition lower :: "string \<Rightarrow> string" where
  "lower s = map lower_char s"

section \<open>The identifier sanitizer\<close>

text \<open>\<open>re.sub(r'[^\w\s]', '_', name)\<close>: every character that is neither a word character nor
  whitespace is replaced by an underscore, one for one.\<close>

definition sub_special :: "string \<Rightarrow> string" where
  "sub_special s = map (\<lambda>c. if \<not> re_word c \<and> \<not> re_space c then underscore else c) s"

text \<open>\<open>re.sub(r'\s+', '_', name)\<close> and \<open>re.sub(r'_+', '_', name)\<close>: scanning from the left, every
  maximal run of characters of the class is replaced by a single underscore.\<close>

function sub_runs :: "(char \<Rightarrow> bool) \<Rightarrow> string \<Rightarrow> string" where
  "sub_runs P [] = []"
| "sub_runs P (c # cs) =
     (if P c then underscore # sub_runs P (dropWhile P cs) else c # sub_runs P cs)"
  by pat_completeness auto
termination
  by (relation "measure (\<lambda>(P, s). length s)")
     (auto simp: length_dropWhile_le less_Suc_eq_le)

text \<open>\<open>name.strip('_')\<close>\<close>

definition strip_underscores :: "string \<Rightarrow> string" where
  "strip_underscores s =
     rev (dropWhile (\<lambda>c. c = underscore) (rev (dropWhile (\<lambda>c. c = underscore) s)))"

definition sanitize_column_name :: "string \<Rightarrow> string" where
  "sanitize_column_name column_name =
     (let name = lower column_name;
          name = sub_special name;
          name = sub_runs re_space name;
          name = sub_runs (\<lambda>c. c = underscore) name;
          name = strip_underscores name;
          name = (if name \<noteq> [] \<and> py_isdigit (hd name) then ''col_'' @ name else name);
          name = (if name = [] then ''unnamed_column'' else name)
      in name)"

text \<open>The pattern \<open>^[a-z_][a-z0-9_]*$\<close> of the specification, read as a match of the whole
  string.\<close>

definition ident_start :: "char \<Rightarrow> bool" where
  "ident_start c = (in_range 0x61 0x7A c \<or> c = underscore)"

definition ident_char :: "char \<Rightarrow> bool" where
  "ident_char c = (in_range 0x61 0x7A c \<or> in_range 0x30 0x39 c \<or> c = underscore)"

fun matches_identifier_pattern :: "string \<Rightarrow> bool" where
  "matches_identifier_pattern [] = False"
| "matches_identifier_pattern (c # cs) = (ident_start c \<and> list_all ident_char cs)"

text \<open>The value of \<open>name\<close> after the five rewriting steps, before the two guards.\<close>

definition core :: "string \<Rightarrow> string" where
  "core x =
     strip_underscores (sub_runs (\<lambda>c. c = underscore) (sub_runs re_space (sub_special (lower x))))"

definition clean :: "string \<Rightarrow> bool" where
  "clean s =
     ((\<forall>c \<in> set s. re_word c \<and> lower_char c = c) \<and>
      \<not> sublist [underscore, underscore] s \<and>
      (s \<noteq> [] \<longrightarrow> hd s \<noteq> underscore \<and> last s \<noteq> underscore))"

section \<open>The type inferencer\<close>

text \<open>\<open>get_postgres_type\<close> first takes \<open>str(dtype)\<close>; the model starts from that string. Python's
  \<open>sub in s\<close> on strings is the contiguous-substring test, \<^const>\<open>sublist\<close>.\<close>

definition get_postgres_type :: "string \<Rightarrow> string" where
  "get_postgres_type dtype_str =
     (if sublist ''int'' dtype_str then ''BIGINT''
      else if sublist ''float'' dtype_str then ''DOUBLE PRECISION''
      else if sublist ''bool'' dtype_str then ''BOOLEAN''
      else if sublist ''datetime'' dtype_str then ''TIMESTAMP''
      else if sublist ''date'' dtype_str then ''DATE''
      else ''TEXT'')"

section \<open>Datasets and the database driver\<close>

text \<open>
  A data frame, by what the program reads from it: its column labels in order; the outcome of
  \<open>str(df[col].dtype)\<close> for a label (the dtype's name, or the description of the exception the
  lookup raises); and its rows, one per row of the frame, each as the tuple that \<open>insert_data\<close>
  hands to the driver, that is \<open>tuple(row)\<close> for the row in \<open>.values\<close> of the copy after
  \<open>where(pd.notnull(df_copy), None)\<close>. What that conversion makes of a cell is decided by pandas
  and is not modelled: the rows are taken as pandas delivers them. A cell is \<open>None\<close>, the float
  \<open>nan\<close>, or another value, given by its text. An exception is represented by its description
  \<open>str(e)\<close>.
\<close>

datatype cell = NoneCell | NaN | Val string

record dataset =
  columns :: "string list"
  dtype_str :: "string \<Rightarrow> string + string"
  rows :: "cell list list"

text \<open>
  The calls the program makes on the cursor and the connection. The driver is a parameter: given the
  calls made so far and the next call, it either accepts the call (\<open>None\<close>) or raises an exception
  with a description. Every call is recorded, also one that raises.
\<close>

datatype db_call =
    Execute string
  | ExecuteMany string "cell list list"
  | Commit
  | Rollback

type_synonym driver = "db_call list \<Rightarrow> db_call \<Rightarrow> string option"

type_synonym 'a outcome = "(string \<times> db_call list) + 'a"

definition call :: "driver \<Rightarrow> db_call list \<Rightarrow> db_call \<Rightarrow> (db_call list) outcome" where
  "call drv log c =
     (case drv log c of
        Some e \<Rightarrow> Inl (e, log @ [c])
      | None \<Rightarrow> Inr (log @ [c]))"

definition dq :: string where
  "dq = [CHR 0x22]"

definition nl :: string where
  "nl = [CHR 0x0A]"

fun join :: "string \<Rightarrow> string list \<Rightarrow> string" where
  "join sep [] = []"
| "join sep [x] = x"
| "join sep (x # y # ys) = x @ sep @ join sep (y # ys)"

section \<open>Schema building and table creation\<close>

text \<open>A Python dict keeps its keys in insertion order; assigning to a key that is present replaces
  its value in place.\<close>

fun dict_set :: "('k \<times> 'v) list \<Rightarrow> 'k \<Rightarrow> 'v \<Rightarrow> ('k \<times> 'v) list" where
  "dict_set [] k v = [(k, v)]"
| "dict_set ((k', v') # d) k v =
     (if k' = k then (k, v) # d else (k', v') # dict_set d k v)"

text \<open>Lines 104 to 118 of \<open>create_table\<close>: the dict from label to identifier.\<close>

definition create_table_columns :: "string list \<Rightarrow> (string \<times> string) list" where
  "create_table_columns cols =
     (let sanitized_columns =
            foldl (\<lambda>d col. dict_set d col (sanitize_column_name col)) [] cols;
          has_id_column =
            (''id'' \<in> set (map (\<lambda>(col, sanitized_col). lower sanitized_col) sanitized_columns))
      in if has_id_column
         then foldl (\<lambda>d (col, sanitized_col).
                       dict_set d col (if lower sanitized_col = ''id'' then ''original_id''
                                       else sanitized_col))
                [] sanitized_columns
         else sanitized_columns)"

fun columns_def :: "dataset \<Rightarrow> (string \<times> string) list \<Rightarrow> string + string list" where
  "columns_def df [] = Inr []"
| "columns_def df ((col, sanitized_col) # rest) =
     (case dtype_str df col of
        Inl e \<Rightarrow> Inl e
      | Inr d \<Rightarrow>
          (case columns_def df rest of
             Inl e \<Rightarrow> Inl e
           | Inr defs \<Rightarrow> Inr ((dq @ sanitized_col @ dq @ '' '' @ get_postgres_type d) # defs)))"

definition drop_query :: "string \<Rightarrow> string" where
  "drop_query table_name = ''DROP TABLE IF EXISTS '' @ dq @ table_name @ dq @ '' CASCADE;''"

definition create_query :: "string \<Rightarrow> string \<Rightarrow> string" where
  "create_query table_name columns_str =
     nl @ ''    CREATE TABLE '' @ dq @ table_name @ dq @ '' ('' @ nl @
     ''        id SERIAL PRIMARY KEY,'' @ nl @
     ''        '' @ columns_str @ nl @
     ''    );'' @ nl @ ''    ''"

definition create_table ::
  "driver \<Rightarrow> db_call list \<Rightarrow> string \<Rightarrow> dataset \<Rightarrow> (db_call list) outcome" where
  "create_table drv log table_name df =
     (case columns_def df (create_table_columns (columns df)) of
        Inl e \<Rightarrow> Inl (e, log)
      | Inr defs \<Rightarrow>
          (let columns_str = join ('','' @ nl @ ''    '') defs
           in case call drv log (Execute (drop_query table_name)) of
                Inl x \<Rightarrow> Inl x
              | Inr log1 \<Rightarrow> call drv log1 (Execute (create_query table_name columns_str))))"

section \<open>The batch loader\<close>

text \<open>\<open>df.empty\<close> holds when either axis has length zero.\<close>

definition df_empty :: "dataset \<Rightarrow> bool" where
  "df_empty df = (rows df = [] \<or> columns df = [])"

text \<open>Lines 159 to 165 of \<open>insert_data\<close>: the list of identifiers.\<close>

definition insert_data_columns :: "string list \<Rightarrow> string list" where
  "insert_data_columns cols =
     (let sanitized_columns = map sanitize_column_name cols;
          has_id_column = (''id'' \<in> set (map lower sanitized_columns))
      in if has_id_column
         then map (\<lambda>col. if lower col = ''id'' then ''original_id'' else col) sanitized_columns
         else sanitized_columns)"

definition batch_size :: nat where
  "batch_size = 1000"

text \<open>The loop \<open>for i in range(0, total_rows, batch_size)\<close>, started at index \<open>i\<close>.\<close>

function insert_batches ::
  "driver \<Rightarrow> string \<Rightarrow> cell list list \<Rightarrow> nat \<Rightarrow> db_call list \<Rightarrow> (db_call list) outcome" where
  "insert_batches drv insert_query data i log =
     (if i < length data
      then (case call drv log (ExecuteMany insert_query (take batch_size (drop i data))) of
              Inl x \<Rightarrow> Inl x
            | Inr log1 \<Rightarrow> insert_batches drv insert_query data (i + batch_size) log1)
      else Inr log)"
  by pat_completeness auto
termination
  by (relation "measure (\<lambda>(drv, q, data, i, log). length data - i)")
     (auto simp: batch_size_def)

definition insert_query :: "string \<Rightarrow> string list \<Rightarrow> string" where
  "insert_query table_name sanitized_columns =
     (let columns_str = join '', '' (map (\<lambda>col. dq @ col @ dq) sanitized_columns);
          placeholders = join '', '' (replicate (length sanitized_columns) ''%s'')
      in ''INSERT INTO '' @ dq @ table_name @ dq @ '' ('' @ columns_str @
         '') VALUES ('' @ placeholders @ '')'')"

definition insert_data ::
  "driver \<Rightarrow> db_call list \<Rightarrow> string \<Rightarrow> dataset \<Rightarrow> (nat \<times> db_call list) outcome" where
  "insert_data drv log table_name df =
     (if df_empty df then Inr (0, log)
      else
        (let sanitized_columns = insert_data_columns (columns df);
             df_copy = rows df;
             total_rows = length df_copy
         in case insert_batches drv (insert_query table_name sanitized_columns) df_copy 0 log of
              Inl x \<Rightarrow> Inl x
            | Inr log1 \<Rightarrow> Inr (total_rows, log1)))"

section \<open>The orchestrator\<close>

text \<open>\<open>str.replace(old, new)\<close>: the occurrences of \<open>old\<close> are replaced from the left, without
  overlap; for an empty \<open>old\<close>, \<open>new\<close> is put before every character and at the end.\<close>

function replace :: "string \<Rightarrow> string \<Rightarrow> string \<Rightarrow> string" where
  "replace old new s =
     (if old = [] then new @ concat (map (\<lambda>c. c # new) s)
      else if s = [] then []
      else if prefix old s then new @ replace old new (drop (length old) s)
      else hd s # replace old new (tl s))"
  by pat_completeness auto
termination
  by (relation "measure (\<lambda>(old, new, s). length s)") auto

definition get_table_name_from_filename :: "string \<Rightarrow> string" where
  "get_table_name_from_filename filename = replace ''.csv'' [] filename"

text \<open>\<open>os.path.basename\<close> with the separator \<open>/\<close>: what follows the last separator.\<close>

definition basename :: "string \<Rightarrow> string" where
  "basename path = rev (takeWhile (\<lambda>c. c \<noteq> CHR ''/'') (rev path))"

text \<open>The result dict of one file: \<open>status\<close> is \<open>'success'\<close> with \<open>rows\<close> and \<open>columns\<close>, or
  \<open>'failed'\<close> with \<open>error\<close>.\<close>

datatype load_result =
    Success string string nat nat
  | Failed string string string

fun status :: "load_result \<Rightarrow> string" where
  "status (Success filename table_name n k) = ''success''"
| "status (Failed filename table_name e) = ''failed''"

type_synonym reader = "string \<Rightarrow> string + dataset"

text \<open>The body of the \<open>try\<close> block: it returns the row and column counts, or the exception raised.\<close>

definition try_block ::
  "reader \<Rightarrow> driver \<Rightarrow> string \<Rightarrow> string \<Rightarrow> db_call list \<Rightarrow>
   ((nat \<times> nat) \<times> db_call list) outcome" where
  "try_block read_csv drv csv_path table_name log =
     (case read_csv csv_path of
        Inl e \<Rightarrow> Inl (e, log)
      | Inr df \<Rightarrow>
          (case create_table drv log table_name df of
             Inl x \<Rightarrow> Inl x
           | Inr log1 \<Rightarrow>
               (case insert_data drv log1 table_name df of
                  Inl x \<Rightarrow> Inl x
                | Inr (rows_inserted, log2) \<Rightarrow>
                    (case call drv log2 Commit of
                       Inl x \<Rightarrow> Inl x
                     | Inr log3 \<Rightarrow> Inr ((rows_inserted, length (columns df)), log3)))))"

text \<open>\<open>load_csv_to_postgres\<close>: \<open>Inl\<close> is an exception that leaves the function, raised by the
  rollback of the handler.\<close>

definition load_csv_to_postgres ::
  "reader \<Rightarrow> driver \<Rightarrow> string \<Rightarrow> db_call list \<Rightarrow> (load_result \<times> db_call list) outcome" where
  "load_csv_to_postgres read_csv drv csv_path log =
     (let filename = basename csv_path;
          table_name = get_table_name_from_filename filename
      in case try_block read_csv drv csv_path table_name log of
           Inr ((rows_inserted, n_columns), log1) \<Rightarrow>
             Inr (Success filename table_name rows_inserted n_columns, log1)
         | Inl (e, log1) \<Rightarrow>
             (case call drv log1 Rollback of
                Inl x \<Rightarrow> Inl x
              | Inr log2 \<Rightarrow> Inr (Failed filename table_name e, log2)))"

text \<open>The loop of \<open>main\<close> over the files, appending each result.\<close>

fun process_files ::
  "reader \<Rightarrow> driver \<Rightarrow> string list \<Rightarrow> load_result list \<Rightarrow> db_call list \<Rightarrow>
   (load_result list \<times> db_call list) outcome" where
  "process_files read_csv drv [] results log = Inr (results, log)"
| "process_files read_csv drv (csv_file # csv_files) results log =
     (case load_csv_to_postgres read_csv drv csv_file log of
        Inl x \<Rightarrow> Inl x
      | Inr (result, log1) \<Rightarrow> process_files read_csv drv csv_files (results @ [result]) log1)"

section \<open>Auxiliary definitions\<close>

text \<open>The slices \<open>data[i:i+batch_size]\<close> that the loop of \<open>insert_data\<close> takes from index \<open>i\<close> on.\<close>

function batches_from :: "'a list \<Rightarrow> nat \<Rightarrow> 'a list list" where
  "batches_from data i =
     (if i < length data
      then take batch_size (drop i data) # batches_from data (i + batch_size)
      else [])"
  by pat_completeness auto
termination
  by (relation "measure (\<lambda>(data, i). length data - i)") (auto simp: batch_size_def)

text \<open>The calls that carry a statement, and the file a result is about.\<close>

fun is_statement :: "db_call \<Rightarrow> bool" where
  "is_statement (Execute q) = True"
| "is_statement (ExecuteMany q b) = True"
| "is_statement Commit = False"
| "is_statement Rollback = False"

fun result_filename :: "load_result \<Rightarrow> string" where
  "result_filename (Success filename table_name n k) = filename"
| "result_filename (Failed filename table_name e) = filename"

text \<open>What an outcome says apart from the calls made: the exception raised, if any.\<close>

fun verdict :: "'a outcome \<Rightarrow> string option" where
  "verdict (Inl (e, l)) = Some e"
| "verdict (Inr x) = None"

declare insert_batches.simps [simp del]

declare batches_from.simps [simp del]

declare replace.simps [simp del]

text \<open>Environments for the examples: a driver that accepts every call, one whose commit raises,
  one whose statements and rollback raise (a lost connection), data frames of text columns
  without missing cells (two rows, no row, 2500 rows), and a reader that fails on one file.\<close>

definition accept_all :: driver where
  "accept_all h c = None"

definition commit_raises :: driver where
  "commit_raises h c = (if c = Commit then Some ''commit failed'' else None)"

definition connection_lost :: driver where
  "connection_lost h c = Some ''connection already closed''"

definition frame_xy :: dataset where
  "frame_xy =
     \<lparr>columns = [''X'', ''Y''], dtype_str = (\<lambda>col. Inr ''object''),
      rows = [[Val ''u'', Val ''v''], [Val ''w'', Val ''z'']]\<rparr>"

definition frame_no_rows :: dataset where
  "frame_no_rows =
     \<lparr>columns = [''X'', ''Y''], dtype_str = (\<lambda>col. Inr ''object''), rows = []\<rparr>"

definition frame_2500 :: dataset where
  "frame_2500 =
     \<lparr>columns = [''X''], dtype_str = (\<lambda>col. Inr ''object''), rows = replicate 2500 [Val ''u'']\<rparr>"

definition example_reader :: reader where
  "example_reader csv_path =
     (if csv_path = ''data/b.csv'' then Inl ''parse error''
      else if csv_path = ''data/empty.csv'' then Inr frame_no_rows
      else Inr frame_xy)"

section \<open>Properties of the sanitizer\<close>

lemma underscore_code: "c = underscore \<longleftrightarrow> of_char c = (95::nat)"
proof -
  have "of_char underscore = (95::nat)" by (simp add: underscore_def)
  then show ?thesis by (metis of_char_eq_iff)
qed

lemma word_not_space: "re_word c \<Longrightarrow> \<not> re_space c"
  unfolding re_word_def re_space_def py_isalnum_def in_range_def underscore_code
  by linarith

lemma lower_char_idem: "lower_char (lower_char c) = lower_char c"
  by (auto simp: lower_char_def in_range_def)

lemma lower_char_underscore: "lower_char underscore = underscore"
  by (simp add: lower_char_def in_range_def underscore_def)

lemma re_word_underscore: "re_word underscore"
  by (simp add: re_word_def)

lemma digit_not_underscore: "py_isdigit c \<Longrightarrow> c \<noteq> underscore"
  unfolding py_isdigit_def in_range_def underscore_code by linarith

lemma sanitize_core:
  "sanitize_column_name x =
     (if core x = [] then ''unnamed_column''
      else if py_isdigit (hd (core x)) then ''col_'' @ core x else core x)"
  by (simp add: sanitize_column_name_def core_def Let_def)

lemma set_sub_special:
  "c \<in> set (sub_special s) \<Longrightarrow> c = underscore \<or> (c \<in> set s \<and> (re_word c \<or> re_space c))"
  by (auto simp: sub_special_def split: if_splits)

lemma set_sub_runs:
  "c \<in> set (sub_runs P s) \<Longrightarrow> c = underscore \<or> (c \<in> set s \<and> \<not> P c)"
  by (induction P s rule: sub_runs.induct) (auto split: if_splits dest: set_dropWhileD)

lemma set_strip: "c \<in> set (strip_underscores s) \<Longrightarrow> c \<in> set s"
  by (auto simp: strip_underscores_def dest!: set_dropWhileD)

lemma set_core:
  assumes "c \<in> set (core x)"
  shows "c = underscore \<or> (re_word c \<and> c \<in> set (lower x))"
proof -
  from assms have "c \<in> set (sub_runs (\<lambda>c. c = underscore) (sub_runs re_space (sub_special (lower x))))"
    unfolding core_def by (rule set_strip)
  then have "c = underscore \<or> c \<in> set (sub_runs re_space (sub_special (lower x)))"
    by (blast dest: set_sub_runs)
  then have "c = underscore \<or> (c \<in> set (sub_special (lower x)) \<and> \<not> re_space c)"
    by (blast dest: set_sub_runs)
  then show ?thesis
    by (blast dest: set_sub_special)
qed

lemma no_uu_sub_runs:
  "(\<And>c. P c \<longleftrightarrow> c = underscore) \<Longrightarrow> \<not> sublist [underscore, underscore] (sub_runs P s)"
proof (induction P s rule: sub_runs.induct)
  case (1 P)
  then show ?case by simp
next
  case (2 P c cs)
  show ?case
  proof (cases "P c")
    case True
    let ?d = "dropWhile P cs"
    have ih: "\<not> sublist [underscore, underscore] (sub_runs P ?d)"
      by (rule 2(1)[OF True 2(3)])
    have "\<not> prefix [underscore] (sub_runs P ?d)"
    proof (cases ?d)
      case Nil
      show ?thesis unfolding Nil by simp
    next
      case (Cons e es)
      then have "\<not> P e" by (metis hd_dropWhile list.sel(1) list.distinct(1))
      then show ?thesis using Cons 2(3) by simp
    qed
    then show ?thesis using True ih by (simp add: sublist_Cons_right)
  next
    case False
    then have "c \<noteq> underscore" using 2(3) by simp
    moreover have "\<not> sublist [underscore, underscore] (sub_runs P cs)"
      by (rule 2(2)[OF False 2(3)])
    ultimately show ?thesis using False by (simp add: sublist_Cons_right)
  qed
qed

lemma sub_runs_id: "\<forall>c \<in> set s. \<not> P c \<Longrightarrow> sub_runs P s = s"
  by (induction s) auto

lemma sub_runs_underscore_id:
  "\<not> sublist [underscore, underscore] s \<Longrightarrow> sub_runs (\<lambda>c. c = underscore) s = s"
proof (induction s)
  case Nil
  then show ?case by simp
next
  case (Cons c cs)
  have ih: "sub_runs (\<lambda>c. c = underscore) cs = cs"
    using Cons by (simp add: sublist_Cons_right)
  show ?case
  proof (cases "c = underscore")
    case True
    then have "dropWhile (\<lambda>c. c = underscore) cs = cs"
      using Cons.prems by (cases cs) (auto simp: sublist_Cons_right)
    then show ?thesis using True ih by simp
  next
    case False
    then show ?thesis using ih by simp
  qed
qed

lemma sublist_strip: "sublist (strip_underscores s) s"
proof -
  let ?U = "\<lambda>c. c = underscore"
  have "sublist (dropWhile ?U (rev (dropWhile ?U s))) (rev (dropWhile ?U s))"
    by (simp add: suffix_dropWhile)
  moreover have "sublist (rev (dropWhile ?U s)) (rev s)"
    by (simp add: suffix_dropWhile)
  ultimately have "sublist (dropWhile ?U (rev (dropWhile ?U s))) (rev s)"
    by (rule sublist_order.order.trans)
  then show ?thesis
    by (simp add: strip_underscores_def sublist_rev_left)
qed

lemma last_dropWhile_ne: "dropWhile P xs \<noteq> [] \<Longrightarrow> last (dropWhile P xs) = last xs"
  by (metis last_appendR takeWhile_dropWhile_id)

lemma strip_ends:
  assumes "strip_underscores s \<noteq> []"
  shows "hd (strip_underscores s) \<noteq> underscore \<and> last (strip_underscores s) \<noteq> underscore"
proof -
  let ?U = "\<lambda>c. c = underscore"
  let ?a = "dropWhile ?U s"
  let ?b = "dropWhile ?U (rev ?a)"
  have b: "?b \<noteq> []" using assms by (simp add: strip_underscores_def)
  have a: "?a \<noteq> []"
  proof
    assume e: "?a = []"
    have "?b = []" unfolding e by simp
    with b show False by simp
  qed
  have "hd ?b \<noteq> underscore" using b by (metis (mono_tags, lifting) hd_dropWhile)
  then have l: "last (rev ?b) \<noteq> underscore" using b by (simp add: last_rev)
  have "last ?b = last (rev ?a)" using b by (rule last_dropWhile_ne)
  also have "\<dots> = hd ?a" using a by (simp add: last_rev)
  finally have "last ?b = hd ?a" .
  moreover have "hd ?a \<noteq> underscore" using a by (metis (mono_tags, lifting) hd_dropWhile)
  ultimately have "hd (rev ?b) \<noteq> underscore" using b by (simp add: hd_rev)
  with l show ?thesis by (simp add: strip_underscores_def)
qed

lemma clean_core: "clean (core x)"
proof -
  have chars: "\<forall>c \<in> set (core x). re_word c \<and> lower_char c = c"
  proof
    fix c assume "c \<in> set (core x)"
    then have "c = underscore \<or> (re_word c \<and> c \<in> set (lower x))" by (rule set_core)
    then show "re_word c \<and> lower_char c = c"
      by (auto simp: lower_def re_word_underscore lower_char_underscore lower_char_idem)
  qed
  have "\<not> sublist [underscore, underscore] (sub_runs (\<lambda>c. c = underscore) (sub_runs re_space (sub_special (lower x))))"
    by (rule no_uu_sub_runs) simp
  then have nouu: "\<not> sublist [underscore, underscore] (core x)"
    unfolding core_def using sublist_strip sublist_order.order.trans by blast
  have "core x \<noteq> [] \<longrightarrow> hd (core x) \<noteq> underscore \<and> last (core x) \<noteq> underscore"
    unfolding core_def using strip_ends by blast
  with chars nouu show ?thesis by (simp add: clean_def)
qed

lemma core_clean:
  assumes "clean s"
  shows "core s = s"
proof -
  let ?U = "\<lambda>c. c = underscore"
  have 1: "lower s = s" using assms by (simp add: clean_def lower_def map_idI)
  have 2: "sub_special s = s" using assms by (simp add: clean_def sub_special_def map_idI)
  have 3: "sub_runs re_space s = s"
    using assms by (intro sub_runs_id) (auto simp: clean_def dest: word_not_space)
  have 4: "sub_runs ?U s = s"
    using assms by (intro sub_runs_underscore_id) (simp add: clean_def)
  have 5: "strip_underscores s = s"
  proof (cases s)
    case Nil
    then show ?thesis by (simp add: strip_underscores_def)
  next
    case (Cons c cs)
    then have h: "hd s \<noteq> underscore" and l: "last s \<noteq> underscore"
      using assms by (auto simp: clean_def)
    from h Cons have a: "dropWhile ?U s = s" by simp
    have "s \<noteq> []" using Cons by simp
    then have "hd (rev s) = last s" by (simp add: hd_rev)
    with l have "hd (rev s) \<noteq> underscore" by simp
    then have "dropWhile ?U (rev s) = rev s" using Cons by (cases "rev s") auto
    with a show ?thesis by (simp add: strip_underscores_def)
  qed
  show ?thesis by (simp add: core_def 1 2 3 4 5)
qed

lemma sanitize_clean_id:
  "clean s \<Longrightarrow> s \<noteq> [] \<Longrightarrow> \<not> py_isdigit (hd s) \<Longrightarrow> sanitize_column_name s = s"
  by (simp add: sanitize_core core_clean)

lemma clean_unnamed: "clean ''unnamed_column''"
  unfolding clean_def by code_simp

lemma unnamed_not_digit: "\<not> py_isdigit (hd ''unnamed_column'')"
  by code_simp

lemma col_chars: "\<forall>c \<in> set ''col_''. re_word c \<and> lower_char c = c"
  by code_simp

lemma col_not_digit: "\<not> py_isdigit (CHR ''c'')"
  by code_simp

lemma clean_col:
  assumes "clean n" and "n \<noteq> []" and "py_isdigit (hd n)"
  shows "clean (''col_'' @ n)"
proof -
  from assms obtain d ds where n: "n = d # ds" by (cases n) auto
  with assms(3) have d: "d \<noteq> underscore" by (simp add: digit_not_underscore)
  have chars: "\<forall>c \<in> set (''col_'' @ n). re_word c \<and> lower_char c = c"
    using col_chars assms(1) unfolding clean_def set_append by blast
  have c: "CHR ''c'' \<noteq> underscore" "CHR ''o'' \<noteq> underscore" "CHR ''l'' \<noteq> underscore"
    by (simp_all add: underscore_def)
  have "\<not> sublist [underscore, underscore] n" using assms(1) by (simp add: clean_def)
  then have nouu: "\<not> sublist [underscore, underscore] (''col_'' @ n)"
    using c d n by (simp add: sublist_Cons_right)
  have "last (''col_'' @ n) = last n" using assms(2) by simp
  then have "last (''col_'' @ n) \<noteq> underscore" using assms(1,2) by (simp add: clean_def)
  moreover have "hd (''col_'' @ n) \<noteq> underscore" using c by simp
  ultimately show ?thesis using chars nouu unfolding clean_def by blast
qed

lemma sanitize_idem: "sanitize_column_name (sanitize_column_name x) = sanitize_column_name x"
proof (cases "core x = []")
  case True
  then have "sanitize_column_name x = ''unnamed_column''" by (simp add: sanitize_core)
  moreover have "sanitize_column_name ''unnamed_column'' = ''unnamed_column''"
    using clean_unnamed unnamed_not_digit by (intro sanitize_clean_id) simp_all
  ultimately show ?thesis by simp
next
  case False
  show ?thesis
  proof (cases "py_isdigit (hd (core x))")
    case True
    then have s: "sanitize_column_name x = ''col_'' @ core x"
      using False by (simp add: sanitize_core)
    have "clean (''col_'' @ core x)" using clean_core False True by (rule clean_col)
    moreover have "\<not> py_isdigit (hd (''col_'' @ core x))" using col_not_digit by simp
    ultimately have "sanitize_column_name (''col_'' @ core x) = ''col_'' @ core x"
      by (intro sanitize_clean_id) simp_all
    with s show ?thesis by simp
  next
    case nd: False
    then have s: "sanitize_column_name x = core x" using False by (simp add: sanitize_core)
    have "sanitize_column_name (core x) = core x"
      using clean_core False nd by (rule sanitize_clean_id)
    with s show ?thesis by simp
  qed
qed

lemma sanitize_nonempty: "sanitize_column_name x \<noteq> []"
  by (simp add: sanitize_core)

lemma sanitize_not_digit: "\<not> py_isdigit (hd (sanitize_column_name x))"
  using unnamed_not_digit col_not_digit by (simp add: sanitize_core)

lemma is_ascii_lower: "is_ascii c \<Longrightarrow> is_ascii (lower_char c)"
  by (auto simp: is_ascii_def lower_char_def in_range_def)

lemma lower_fix_not_upper:
  assumes "lower_char c = c"
  shows "\<not> in_range 0x41 0x5A c"
proof
  assume "in_range 0x41 0x5A c"
  then have "of_char (lower_char c) = (of_char c + 32 :: nat)"
    by (simp add: lower_char_def in_range_def)
  with assms show False by simp
qed

lemma ascii_word_ident:
  assumes "is_ascii c" and "lower_char c = c" and "re_word c"
  shows "ident_char c"
  using assms(1,3) lower_fix_not_upper[OF assms(2)]
  unfolding is_ascii_def re_word_def py_isalnum_def ident_char_def in_range_def underscore_code
  by linarith

lemma ident_not_digit_start: "ident_char c \<Longrightarrow> \<not> py_isdigit c \<Longrightarrow> ident_start c"
  unfolding ident_char_def ident_start_def py_isdigit_def in_range_def underscore_code
  by linarith

lemma ascii_core:
  assumes "\<forall>c \<in> set x. is_ascii c"
  shows "\<forall>c \<in> set (core x). ident_char c"
proof
  fix c assume c: "c \<in> set (core x)"
  then have "c = underscore \<or> (re_word c \<and> c \<in> set (lower x))" by (rule set_core)
  then show "ident_char c"
  proof
    assume "c = underscore"
    then show ?thesis by (simp add: ident_char_def)
  next
    assume h: "re_word c \<and> c \<in> set (lower x)"
    then obtain d where "d \<in> set x" "c = lower_char d" by (auto simp: lower_def)
    then have "is_ascii c" "lower_char c = c"
      using assms by (simp_all add: is_ascii_lower lower_char_idem)
    with h show ?thesis by (simp add: ascii_word_ident)
  qed
qed

lemma unnamed_matches: "matches_identifier_pattern ''unnamed_column''"
  by code_simp

lemma col_ident: "ident_start (CHR ''c'') \<and> list_all ident_char ''ol_''"
  by code_simp

lemma ascii_sanitize_matches:
  assumes "\<forall>c \<in> set x. is_ascii c"
  shows "matches_identifier_pattern (sanitize_column_name x)"
proof (cases "core x = []")
  case True
  then show ?thesis using unnamed_matches by (simp add: sanitize_core)
next
  case False
  then obtain d ds where n: "core x = d # ds" by (cases "core x") auto
  have all: "list_all ident_char (core x)"
    using ascii_core[OF assms] by (simp add: list_all_iff)
  show ?thesis
  proof (cases "py_isdigit d")
    case True
    then show ?thesis using n all col_ident by (simp add: sanitize_core)
  next
    case nd: False
    have "ident_char d" using all n by simp
    then have "ident_start d" using nd by (rule ident_not_digit_start)
    then show ?thesis using n all nd by (simp add: sanitize_core)
  qed
qed

lemma lower_sanitize: "lower (sanitize_column_name x) = sanitize_column_name x"
proof -
  have c: "lower (core x) = core x"
    using clean_core[of x] by (simp add: clean_def lower_def map_idI)
  have "lower ''unnamed_column'' = ''unnamed_column''" "lower ''col_'' = ''col_''"
    by code_simp+
  then show ?thesis using c by (simp add: sanitize_core lower_def)
qed

lemma sanitize_examples:
  "sanitize_column_name ''Patient ID'' = ''patient_id''"
  "sanitize_column_name ''2nd-Dose (mg)'' = ''col_2nd_dose_mg''"
  "sanitize_column_name '''' = ''unnamed_column''"
  "sanitize_column_name ''___'' = ''unnamed_column''"
  by code_simp+

text \<open>
  Claim C9. The sanitizer is idempotent: sanitizing an output of the sanitizer gives that output
  back, for every label.
\<close>

theorem C9_sanitize_idempotent:
  "sanitize_column_name (sanitize_column_name x) = sanitize_column_name x"
  by (rule sanitize_idem)

text \<open>
  Claim C6, as stated, fails on a label with a letter outside ASCII: \<open>\w\<close> and \<open>lower\<close> are the
  Unicode ones, so the label \<open>Caf\<close> followed by U+00E9 is sanitized to \<open>caf\<close> followed by U+00E9,
  which does not match \<open>^[a-z_][a-z0-9_]*$\<close> and is not \<open>unnamed_column\<close>.
\<close>

theorem C6_non_ascii_counterexample:
  "sanitize_column_name [CHR ''C'', CHR ''a'', CHR ''f'', CHR 0xE9] = [CHR ''c'', CHR ''a'', CHR ''f'', CHR 0xE9]
   \<and> \<not> matches_identifier_pattern (sanitize_column_name [CHR ''C'', CHR ''a'', CHR ''f'', CHR 0xE9])
   \<and> sanitize_column_name [CHR ''C'', CHR ''a'', CHR ''f'', CHR 0xE9] \<noteq> ''unnamed_column''"
  by code_simp

text \<open>
  Claim C6, amended. For every label made of ASCII characters only, the output of
  \<open>sanitize_column_name\<close> matches \<open>^[a-z_][a-z0-9_]*$\<close> (which \<open>unnamed_column\<close> does too). For every
  label, the output is never the empty string and never starts with a digit. The four examples of
  the claim hold.
\<close>

theorem C6_sanitize_output_shape:
  "((\<forall>c \<in> set x. is_ascii c) \<longrightarrow> matches_identifier_pattern (sanitize_column_name x))
   \<and> sanitize_column_name x \<noteq> []
   \<and> \<not> py_isdigit (hd (sanitize_column_name x))
   \<and> sanitize_column_name ''Patient ID'' = ''patient_id''
   \<and> sanitize_column_name ''2nd-Dose (mg)'' = ''col_2nd_dose_mg''
   \<and> sanitize_column_name '''' = ''unnamed_column''
   \<and> sanitize_column_name ''___'' = ''unnamed_column''"
proof (intro conjI impI)
  assume "\<forall>c \<in> set x. is_ascii c"
  then show "matches_identifier_pattern (sanitize_column_name x)"
    by (rule ascii_sanitize_matches)
qed (rule sanitize_nonempty sanitize_not_digit sanitize_examples)+

theorem C6_sanitize_output_shape_witness:
  "list_all is_ascii ''2nd-Dose (mg)''
   \<and> matches_identifier_pattern (sanitize_column_name ''2nd-Dose (mg)'')"
proof -
  have l: "list_all is_ascii ''2nd-Dose (mg)''" by code_simp
  then have h: "\<forall>c \<in> set ''2nd-Dose (mg)''. is_ascii c" by (simp only: list_all_iff)
  have "(\<forall>c \<in> set ''2nd-Dose (mg)''. is_ascii c) \<longrightarrow>
        matches_identifier_pattern (sanitize_column_name ''2nd-Dose (mg)'')"
    using C6_sanitize_output_shape[of "''2nd-Dose (mg)''"] by (rule conjunct1)
  then have "matches_identifier_pattern (sanitize_column_name ''2nd-Dose (mg)'')"
    using h by (rule mp)
  with l show ?thesis by (rule conjI)
qed

section \<open>Properties of the type inferencer\<close>

text \<open>
  Claim C7. \<open>get_postgres_type\<close> returns one of the six type names for every dtype string, and the
  substring tests are taken in the order \<open>int\<close>, \<open>float\<close>, \<open>bool\<close>, \<open>datetime\<close>, \<open>date\<close>, with
  \<open>TEXT\<close> for everything else.
\<close>

theorem C7_get_postgres_type_precedence:
  "get_postgres_type d \<in> {''BIGINT'', ''DOUBLE PRECISION'', ''BOOLEAN'', ''TIMESTAMP'', ''DATE'', ''TEXT''}
   \<and> (sublist ''int'' d \<longrightarrow> get_postgres_type d = ''BIGINT'')
   \<and> (\<not> sublist ''int'' d \<and> sublist ''float'' d \<longrightarrow> get_postgres_type d = ''DOUBLE PRECISION'')
   \<and> (\<not> sublist ''int'' d \<and> \<not> sublist ''float'' d \<and> sublist ''bool'' d \<longrightarrow>
        get_postgres_type d = ''BOOLEAN'')
   \<and> (\<not> sublist ''int'' d \<and> \<not> sublist ''float'' d \<and> \<not> sublist ''bool'' d \<and> sublist ''datetime'' d \<longrightarrow>
        get_postgres_type d = ''TIMESTAMP'')
   \<and> (\<not> sublist ''int'' d \<and> \<not> sublist ''float'' d \<and> \<not> sublist ''bool'' d \<and> \<not> sublist ''datetime'' d
        \<and> sublist ''date'' d \<longrightarrow> get_postgres_type d = ''DATE'')
   \<and> (\<not> sublist ''int'' d \<and> \<not> sublist ''float'' d \<and> \<not> sublist ''bool'' d \<and> \<not> sublist ''datetime'' d
        \<and> \<not> sublist ''date'' d \<longrightarrow> get_postgres_type d = ''TEXT'')"
  by (simp add: get_postgres_type_def)

theorem C7_get_postgres_type_precedence_witness:
  "get_postgres_type ''int64'' = ''BIGINT''
   \<and> get_postgres_type ''float64'' = ''DOUBLE PRECISION''
   \<and> get_postgres_type ''bool'' = ''BOOLEAN''
   \<and> get_postgres_type ''datetime64[ns]'' = ''TIMESTAMP''
   \<and> get_postgres_type ''date'' = ''DATE''
   \<and> get_postgres_type ''object'' = ''TEXT''"
proof (intro conjI)
  have 1: "sublist ''int'' ''int64''" by code_simp
  show "get_postgres_type ''int64'' = ''BIGINT''"
    by (rule C7_get_postgres_type_precedence
          [of "''int64''", THEN conjunct2, THEN conjunct1, THEN mp, OF 1])
  have 2: "\<not> sublist ''int'' ''float64'' \<and> sublist ''float'' ''float64''" by code_simp
  show "get_postgres_type ''float64'' = ''DOUBLE PRECISION''"
    by (rule C7_get_postgres_type_precedence
          [of "''float64''", THEN conjunct2, THEN conjunct2, THEN conjunct1, THEN mp, OF 2])
  have 3: "\<not> sublist ''int'' ''bool'' \<and> \<not> sublist ''float'' ''bool'' \<and> sublist ''bool'' ''bool''"
    by code_simp
  show "get_postgres_type ''bool'' = ''BOOLEAN''"
    by (rule C7_get_postgres_type_precedence
          [of "''bool''", THEN conjunct2, THEN conjunct2, THEN conjunct2, THEN conjunct1,
           THEN mp, OF 3])
  have 4: "\<not> sublist ''int'' ''datetime64[ns]'' \<and> \<not> sublist ''float'' ''datetime64[ns]''
           \<and> \<not> sublist ''bool'' ''datetime64[ns]'' \<and> sublist ''datetime'' ''datetime64[ns]''"
    by code_simp
  show "get_postgres_type ''datetime64[ns]'' = ''TIMESTAMP''"
    by (rule C7_get_postgres_type_precedence
          [of "''datetime64[ns]''", THEN conjunct2, THEN conjunct2, THEN conjunct2,
           THEN conjunct2, THEN conjunct1, THEN mp, OF 4])
  have 5: "\<not> sublist ''int'' ''date'' \<and> \<not> sublist ''float'' ''date'' \<and> \<not> sublist ''bool'' ''date''
           \<and> \<not> sublist ''datetime'' ''date'' \<and> sublist ''date'' ''date''"
    by code_simp
  show "get_postgres_type ''date'' = ''DATE''"
    by (rule C7_get_postgres_type_precedence
          [of "''date''", THEN conjunct2, THEN conjunct2, THEN conjunct2, THEN conjunct2,
           THEN conjunct2, THEN conjunct1, THEN mp, OF 5])
  have 6: "\<not> sublist ''int'' ''object'' \<and> \<not> sublist ''float'' ''object''
           \<and> \<not> sublist ''bool'' ''object'' \<and> \<not> sublist ''datetime'' ''object''
           \<and> \<not> sublist ''date'' ''object''"
    by code_simp
  show "get_postgres_type ''object'' = ''TEXT''"
    by (rule C7_get_postgres_type_precedence
          [of "''object''", THEN conjunct2, THEN conjunct2, THEN conjunct2, THEN conjunct2,
           THEN conjunct2, THEN conjunct2, THEN mp, OF 6])
qed

section \<open>The table name\<close>

text \<open>
  Claim C5 says that the table name is the file name minus only its trailing \<open>.csv\<close>. The code
  removes every occurrence of \<open>.csv\<close>: for the file \<open>my.csvfile.csv\<close> the table name is \<open>myfile\<close>,
  not \<open>my.csvfile\<close>. For a file name whose only \<open>.csv\<close> is the extension, such as \<open>patients.csv\<close>,
  the two agree.
\<close>

theorem C5_table_name_removes_every_csv:
  "get_table_name_from_filename ''my.csvfile.csv'' = ''myfile''
   \<and> get_table_name_from_filename ''my.csvfile.csv'' \<noteq> ''my.csvfile''
   \<and> get_table_name_from_filename ''patients.csv'' = ''patients''"
  by code_simp

section \<open>Column identifiers for creation and insertion\<close>

lemma dict_set_fresh: "k \<notin> fst ` set d \<Longrightarrow> dict_set d k v = d @ [(k, v)]"
  by (induction d) auto

lemma foldl_dict_set_keys:
  "distinct ks \<Longrightarrow> set ks \<inter> fst ` set d = {} \<Longrightarrow>
   foldl (\<lambda>d k. dict_set d k (f k)) d ks = d @ map (\<lambda>k. (k, f k)) ks"
proof (induction ks arbitrary: d)
  case Nil
  then show ?case by simp
next
  case (Cons k ks)
  have "dict_set d k (f k) = d @ [(k, f k)]"
    using Cons.prems by (intro dict_set_fresh) auto
  moreover have "set ks \<inter> fst ` set (d @ [(k, f k)]) = {}"
    using Cons.prems by auto
  ultimately show ?case using Cons by simp
qed

lemma foldl_dict_set_items:
  "distinct (map fst ps) \<Longrightarrow> fst ` set ps \<inter> fst ` set d = {} \<Longrightarrow>
   foldl (\<lambda>d (k, s). dict_set d k (g s)) d ps = d @ map (\<lambda>(k, s). (k, g s)) ps"
proof (induction ps arbitrary: d)
  case Nil
  then show ?case by simp
next
  case (Cons p ps)
  obtain k s where p: "p = (k, s)" by (cases p)
  have "dict_set d k (g s) = d @ [(k, g s)]"
    using Cons.prems p by (intro dict_set_fresh) auto
  moreover have "fst ` set ps \<inter> fst ` set (d @ [(k, g s)]) = {}"
    using Cons.prems p by auto
  ultimately show ?case using Cons p by simp
qed

text \<open>With pairwise distinct labels the two dicts of \<open>create_table\<close> are the label list zipped
  with the identifiers.\<close>

lemma create_table_columns_distinct:
  assumes "distinct cols"
  shows "create_table_columns cols =
     (if ''id'' \<in> set (map (\<lambda>c. lower (sanitize_column_name c)) cols)
      then map (\<lambda>c. (c, if lower (sanitize_column_name c) = ''id'' then ''original_id''
                         else sanitize_column_name c)) cols
      else map (\<lambda>c. (c, sanitize_column_name c)) cols)"
proof -
  let ?sc = "map (\<lambda>c. (c, sanitize_column_name c)) cols"
  let ?g = "\<lambda>s. if lower s = ''id'' then ''original_id'' else s"
  have 1: "foldl (\<lambda>d col. dict_set d col (sanitize_column_name col)) [] cols = ?sc"
    using foldl_dict_set_keys[OF assms, of "[]" sanitize_column_name] by simp
  have "distinct (map fst ?sc)" using assms by (simp add: o_def)
  then have 2: "foldl (\<lambda>d (col, s). dict_set d col (?g s)) [] ?sc = map (\<lambda>(k, s). (k, ?g s)) ?sc"
    using foldl_dict_set_items[of ?sc "[]" ?g] by simp
  have 3: "map (\<lambda>(col, s). lower s) ?sc = map (\<lambda>c. lower (sanitize_column_name c)) cols"
    by (simp add: o_def)
  have 4: "map (\<lambda>(k, s). (k, ?g s)) ?sc = map (\<lambda>c. (c, ?g (sanitize_column_name c))) cols"
    by (simp add: o_def)
  show ?thesis
    unfolding create_table_columns_def Let_def 1 2 3 4 by (rule refl)
qed

lemma insert_data_columns_eq:
  "insert_data_columns cols =
     (if ''id'' \<in> set (map (\<lambda>c. lower (sanitize_column_name c)) cols)
      then map (\<lambda>c. if lower (sanitize_column_name c) = ''id'' then ''original_id''
                    else sanitize_column_name c) cols
      else map sanitize_column_name cols)"
  unfolding insert_data_columns_def Let_def map_map o_def by (rule refl)

lemma columns_agree:
  assumes "distinct cols"
  shows "map snd (create_table_columns cols) = insert_data_columns cols"
  unfolding create_table_columns_distinct[OF assms] insert_data_columns_eq
  by (simp only: if_distrib[of "map snd"] map_map o_def snd_conv)

lemma columns_agree_example:
  "map snd (create_table_columns [''id'', ''Name'']) = [''original_id'', ''name'']"
  "insert_data_columns [''id'', ''Name''] = [''original_id'', ''name'']"
  by code_simp+

text \<open>
  Claim C1, as stated, fails on a data frame in which a label occurs twice: the dict of
  \<open>create_table\<close> holds the label once, the list of \<open>insert_data\<close> twice.
\<close>

theorem C1_duplicate_label_counterexample:
  "map snd (create_table_columns [''a'', ''a'']) = [''a'']
   \<and> insert_data_columns [''a'', ''a''] = [''a'', ''a'']
   \<and> map snd (create_table_columns [''a'', ''a'']) \<noteq> insert_data_columns [''a'', ''a'']"
  by code_simp

text \<open>
  Claim C1, amended. For every dataset whose column labels are pairwise distinct, the sequence of
  identifiers that \<open>create_table\<close> computes (sanitization, then the renaming of \<open>id\<close> to
  \<open>original_id\<close>) is the sequence that \<open>insert_data\<close> recomputes, element by element and in the same
  order; for the columns \<open>id\<close>, \<open>Name\<close> both give \<open>original_id\<close>, \<open>name\<close>.
\<close>

theorem C1_columns_agree:
  "(distinct cols \<longrightarrow> map snd (create_table_columns cols) = insert_data_columns cols)
   \<and> map snd (create_table_columns [''id'', ''Name'']) = [''original_id'', ''name'']
   \<and> insert_data_columns [''id'', ''Name''] = [''original_id'', ''name'']"
proof (intro conjI impI)
  assume "distinct cols"
  then show "map snd (create_table_columns cols) = insert_data_columns cols"
    by (rule columns_agree)
qed (rule columns_agree_example)+

theorem C1_columns_agree_witness:
  "distinct [''id'', ''Name'']
   \<and> map snd (create_table_columns [''id'', ''Name'']) = insert_data_columns [''id'', ''Name'']"
proof -
  have d: "distinct [''id'', ''Name'']" by code_simp
  have "map snd (create_table_columns [''id'', ''Name'']) = insert_data_columns [''id'', ''Name'']"
    by (rule C1_columns_agree[of "[''id'', ''Name'']", THEN conjunct1, THEN mp, OF d])
  with d show ?thesis by (rule conjI)
qed

text \<open>
  Claim C10. The renaming looks at the sanitized identifier: the labels \<open>ID.\<close> and \<open>_id_\<close> are
  neither \<open>id\<close> nor \<open>ID\<close>, their sanitized form is \<open>id\<close>, and both \<open>create_table\<close> and
  \<open>insert_data\<close> name the column \<open>original_id\<close>.
\<close>

theorem C10_rename_on_sanitized_identifier:
  "sanitize_column_name ''ID.'' = ''id''
   \<and> sanitize_column_name ''_id_'' = ''id''
   \<and> create_table_columns [''ID.'', ''Name''] = [(''ID.'', ''original_id''), (''Name'', ''name'')]
   \<and> insert_data_columns [''ID.'', ''Name''] = [''original_id'', ''name'']
   \<and> create_table_columns [''_id_''] = [(''_id_'', ''original_id'')]
   \<and> insert_data_columns [''_id_''] = [''original_id'']"
  by code_simp

section \<open>Identifiers of the built schema\<close>

lemma set_dict_set: "set (dict_set d k v) \<subseteq> insert (k, v) (set d)"
  by (induction d) (auto split: if_splits)

lemma foldl_dict_set_keys_values:
  "p \<in> set (foldl (\<lambda>d k. dict_set d k (f k)) d ks) \<Longrightarrow> p \<in> set d \<or> snd p = f (fst p)"
proof (induction ks arbitrary: d)
  case Nil
  then show ?case by simp
next
  case (Cons k ks)
  from Cons.prems have "p \<in> set (foldl (\<lambda>d k. dict_set d k (f k)) (dict_set d k (f k)) ks)"
    by simp
  then have "p \<in> set (dict_set d k (f k)) \<or> snd p = f (fst p)" by (rule Cons.IH)
  then show ?case using set_dict_set[of d k "f k"] by auto
qed

lemma foldl_dict_set_items_values:
  "p \<in> set (foldl (\<lambda>d (k, s). dict_set d k (g s)) d ps) \<Longrightarrow>
   p \<in> set d \<or> (\<exists>q \<in> set ps. snd p = g (snd q))"
proof (induction ps arbitrary: d)
  case Nil
  then show ?case by simp
next
  case (Cons q ps)
  obtain k s where q: "q = (k, s)" by (cases q)
  from Cons.prems q
  have "p \<in> set (foldl (\<lambda>d (k, s). dict_set d k (g s)) (dict_set d k (g s)) ps)"
    by simp
  then have "p \<in> set (dict_set d k (g s)) \<or> (\<exists>q \<in> set ps. snd p = g (snd q))"
    by (rule Cons.IH)
  then show ?case using set_dict_set[of d k "g s"] q by auto
qed

lemma lower_original_id: "lower ''original_id'' = ''original_id''"
  by code_simp

lemma original_id_not_id: "''original_id'' \<noteq> ''id''"
  by simp

text \<open>No identifier of \<open>create_table\<close> is \<open>id\<close>, whatever the labels.\<close>

lemma create_table_columns_no_id:
  assumes "v \<in> set (map snd (create_table_columns cols))"
  shows "lower v \<noteq> ''id''"
proof -
  define ID where "ID = ''id''"
  define OID where "OID = ''original_id''"
  define sc where "sc = foldl (\<lambda>d col. dict_set d col (sanitize_column_name col)) [] cols"
  define g where "g = (\<lambda>s. if lower s = ID then OID else s)"
  have "lower OID \<noteq> ID"
    unfolding OID_def ID_def lower_original_id by (rule original_id_not_id)
  then have g: "lower (g s) \<noteq> ID" for s by (simp add: g_def)
  have ctc: "create_table_columns cols =
      (if ID \<in> set (map (\<lambda>(col, s). lower s) sc)
       then foldl (\<lambda>d (col, s). dict_set d col (g s)) [] sc else sc)"
    unfolding create_table_columns_def Let_def sc_def g_def ID_def OID_def by (rule refl)
  from assms obtain p where p: "p \<in> set (create_table_columns cols)" "v = snd p" by auto
  have "lower v \<noteq> ID"
  proof (cases "ID \<in> set (map (\<lambda>(col, s). lower s) sc)")
    case True
    with p ctc have "p \<in> set (foldl (\<lambda>d (col, s). dict_set d col (g s)) [] sc)" by simp
    then obtain q where "snd p = g (snd q)"
      using foldl_dict_set_items_values[of p g "[]" sc] by auto
    then show ?thesis using g p by simp
  next
    case False
    with p ctc have "p \<in> set sc" by simp
    then have "lower (snd p) \<in> set (map (\<lambda>(col, s). lower s) sc)"
      by (force simp: case_prod_unfold)
    with False p show ?thesis by metis
  qed
  then show ?thesis unfolding ID_def .
qed

lemma distinct_rename:
  "distinct S \<Longrightarrow> b \<notin> set S \<Longrightarrow> distinct (map (\<lambda>s. if s = a then b else s) S)"
  by (induction S) auto

lemma create_table_columns_distinct_ids:
  assumes d: "distinct (map sanitize_column_name cols)"
    and n: "\<not> (''id'' \<in> set (map sanitize_column_name cols)
              \<and> ''original_id'' \<in> set (map sanitize_column_name cols))"
  shows "distinct (map lower (map snd (create_table_columns cols)))"
proof -
  define ID where "ID = ''id''"
  define OID where "OID = ''original_id''"
  define S where "S = map sanitize_column_name cols"
  have lo: "lower OID = OID" unfolding OID_def by (rule lower_original_id)
  have lS: "lower s = s" if "s \<in> set S" for s
    using that by (auto simp: S_def lower_sanitize)
  have "distinct cols" using d by (simp add: distinct_map)
  then have "map snd (create_table_columns cols) = insert_data_columns cols"
    by (rule columns_agree)
  also have "\<dots> = (if ID \<in> set (map lower S) then map (\<lambda>s. if lower s = ID then OID else s) S
                     else S)"
    unfolding insert_data_columns_def Let_def S_def ID_def OID_def by (rule refl)
  also have "map lower S = S" using lS by (simp add: map_idI)
  also have "map (\<lambda>s. if lower s = ID then OID else s) S = map (\<lambda>s. if s = ID then OID else s) S"
    using lS by (intro map_cong) simp_all
  finally have ids: "map snd (create_table_columns cols) =
      (if ID \<in> set S then map (\<lambda>s. if s = ID then OID else s) S else S)" .
  have dS: "distinct S" using d by (simp add: S_def)
  show ?thesis
  proof (cases "ID \<in> set S")
    case True
    then have "OID \<notin> set S" using n by (simp add: S_def ID_def OID_def)
    with dS have "distinct (map (\<lambda>s. if s = ID then OID else s) S)" by (rule distinct_rename)
    moreover have "map lower (map (\<lambda>s. if s = ID then OID else s) S)
                   = map (\<lambda>s. if s = ID then OID else s) S"
      using lS lo by (intro map_idI) auto
    ultimately have "distinct (map lower (map (\<lambda>s. if s = ID then OID else s) S))"
      by (simp only:)
    then show ?thesis unfolding ids if_P[OF True] .
  next
    case False
    then show ?thesis using ids dS lS by (simp add: map_idI)
  qed
qed

text \<open>
  Claim C4, as stated, fails: the labels \<open>A B\<close> and \<open>A-B\<close> are both sanitized to \<open>a_b\<close>, and
  nothing tells them apart afterwards.
\<close>

theorem C4_colliding_labels_counterexample:
  "map snd (create_table_columns [''A B'', ''A-B'']) = [''a_b'', ''a_b'']
   \<and> \<not> distinct (map lower (map snd (create_table_columns [''A B'', ''A-B''])))"
  by code_simp

text \<open>The renaming can itself make two identifiers equal.\<close>

lemma rename_collision_example:
  "map snd (create_table_columns [''id'', ''original_id'']) = [''original_id'', ''original_id'']"
  by code_simp

text \<open>
  Claim C4, amended. For every dataset, no column identifier that \<open>create_table\<close> emits equals the
  reserved name \<open>id\<close>, case-insensitively. The identifiers are pairwise distinct, case-insensitively,
  whenever the sanitized labels are pairwise distinct and \<open>id\<close> and \<open>original_id\<close> are not both among
  them.
\<close>

theorem C4_schema_identifiers:
  "''id'' \<notin> set (map lower (map snd (create_table_columns cols)))
   \<and> (distinct (map sanitize_column_name cols)
        \<and> \<not> (''id'' \<in> set (map sanitize_column_name cols)
              \<and> ''original_id'' \<in> set (map sanitize_column_name cols))
       \<longrightarrow> distinct (map lower (map snd (create_table_columns cols))))"
proof (intro conjI impI)
  show "''id'' \<notin> set (map lower (map snd (create_table_columns cols)))"
  proof
    assume "''id'' \<in> set (map lower (map snd (create_table_columns cols)))"
    then obtain v where "v \<in> set (map snd (create_table_columns cols))" "lower v = ''id''"
      by (metis (no_types, lifting) imageE list.set_map)
    then show False using create_table_columns_no_id by metis
  qed
next
  assume "distinct (map sanitize_column_name cols)
        \<and> \<not> (''id'' \<in> set (map sanitize_column_name cols)
              \<and> ''original_id'' \<in> set (map sanitize_column_name cols))"
  then show "distinct (map lower (map snd (create_table_columns cols)))"
    using create_table_columns_distinct_ids by metis
qed

theorem C4_schema_identifiers_witness:
  "distinct (map sanitize_column_name [''id'', ''Name''])
   \<and> ''original_id'' \<notin> set (map sanitize_column_name [''id'', ''Name''])
   \<and> distinct (map lower (map snd (create_table_columns [''id'', ''Name''])))"
proof -
  have d: "distinct (map sanitize_column_name [''id'', ''Name''])" by code_simp
  have o: "''original_id'' \<notin> set (map sanitize_column_name [''id'', ''Name''])" by code_simp
  have h: "distinct (map sanitize_column_name [''id'', ''Name''])
        \<and> \<not> (''id'' \<in> set (map sanitize_column_name [''id'', ''Name''])
              \<and> ''original_id'' \<in> set (map sanitize_column_name [''id'', ''Name'']))"
  proof (intro conjI notI)
    show "distinct (map sanitize_column_name [''id'', ''Name''])" by (rule d)
  next
    assume "''id'' \<in> set (map sanitize_column_name [''id'', ''Name''])
              \<and> ''original_id'' \<in> set (map sanitize_column_name [''id'', ''Name''])"
    then have "''original_id'' \<in> set (map sanitize_column_name [''id'', ''Name''])"
      by (rule conjunct2)
    with o show False by (rule notE)
  qed
  have "distinct (map lower (map snd (create_table_columns [''id'', ''Name''])))"
    by (rule C4_schema_identifiers[of "[''id'', ''Name'']", THEN conjunct2, THEN mp, OF h])
  with d o show ?thesis by (intro conjI)
qed

section \<open>The batch loader\<close>

lemma call_accepted: "drv log c = None \<Longrightarrow> call drv log c = Inr (log @ [c])"
  by (simp add: call_def)

lemma call_raised: "drv log c = Some e \<Longrightarrow> call drv log c = Inl (e, log @ [c])"
  by (simp add: call_def)

lemma insert_batches_accepting:
  assumes "\<forall>h q b. drv h (ExecuteMany q b) = None"
  shows "insert_batches drv q data i log = Inr (log @ map (ExecuteMany q) (batches_from data i))"
  using assms
proof (induction drv q data i log rule: insert_batches.induct)
  case (1 drv q data i log)
  show ?case
  proof (cases "i < length data")
    case True
    let ?c = "ExecuteMany q (take batch_size (drop i data))"
    have c: "call drv log ?c = Inr (log @ [?c])"
      using "1.prems" by (simp add: call_accepted)
    have "insert_batches drv q data i log = insert_batches drv q data (i + batch_size) (log @ [?c])"
      by (subst insert_batches.simps) (simp add: True c)
    also have "\<dots> = Inr ((log @ [?c]) @ map (ExecuteMany q) (batches_from data (i + batch_size)))"
      using True c "1.prems" by (rule "1.IH")
    also have "\<dots> = Inr (log @ map (ExecuteMany q) (batches_from data i))"
      by (subst (2) batches_from.simps) (simp add: True)
    finally show ?thesis .
  next
    case False
    then show ?thesis
      by (subst insert_batches.simps, subst batches_from.simps) simp
  qed
qed

lemma concat_batches_from: "concat (batches_from data i) = drop i data"
proof (induction data i rule: batches_from.induct)
  case (1 data i)
  show ?case
  proof (cases "i < length data")
    case True
    have "concat (batches_from data i)
          = take batch_size (drop i data) @ concat (batches_from data (i + batch_size))"
      by (subst batches_from.simps) (simp add: True)
    also have "\<dots> = take batch_size (drop i data) @ drop batch_size (drop i data)"
      using "1.IH"[OF True] by (simp add: add.commute)
    also have "\<dots> = drop i data"
      by (rule append_take_drop_id)
    finally show ?thesis .
  next
    case False
    then show ?thesis by (subst batches_from.simps) simp
  qed
qed

lemma length_batches_from:
  "map length (batches_from data i) =
     replicate ((length data - i) div batch_size) batch_size @
     (if (length data - i) mod batch_size = 0 then [] else [(length data - i) mod batch_size])"
proof (induction data i rule: batches_from.induct)
  case (1 data i)
  let ?m = "length data - i"
  show ?case
  proof (cases "i < length data")
    case True
    have step: "map length (batches_from data i)
          = min (length data - i) batch_size # map length (batches_from data (i + batch_size))"
      by (subst batches_from.simps) (simp add: True)
    show ?thesis
    proof (cases "batch_size \<le> ?m")
      case big: True
      have "length data - (i + batch_size) = ?m - batch_size" by simp
      then have ih: "map length (batches_from data (i + batch_size)) =
          replicate ((?m - batch_size) div batch_size) batch_size @
          (if (?m - batch_size) mod batch_size = 0 then []
           else [(?m - batch_size) mod batch_size])"
        using "1.IH"[OF True] by simp
      have d: "?m div batch_size = Suc ((?m - batch_size) div batch_size)"
        using big by (simp add: le_div_geq batch_size_def)
      have m: "?m mod batch_size = (?m - batch_size) mod batch_size"
        using big by (simp add: le_mod_geq)
      have "min ?m batch_size = batch_size" using big by simp
      then show ?thesis unfolding step ih d m by simp
    next
      case small: False
      then have "\<not> i + batch_size < length data" by simp
      then have e: "batches_from data (i + batch_size) = []"
        by (subst batches_from.simps) simp
      have "?m div batch_size = 0" "?m mod batch_size = ?m" "?m \<noteq> 0" "min ?m batch_size = ?m"
        using small True by simp_all
      then show ?thesis unfolding step e by simp
    qed
  next
    case False
    then have "?m = 0" by simp
    moreover have "batches_from data i = []"
      using False by (subst batches_from.simps) simp
    ultimately show ?thesis by simp
  qed
qed

lemma ceil_div_1000:
  fixes n :: nat
  shows "(n + 999) div 1000 = n div 1000 + (if n mod 1000 = 0 then 0 else 1)"
proof -
  define q where "q = n div 1000"
  define r where "r = n mod 1000"
  have n: "n = q * 1000 + r" unfolding q_def r_def by simp
  have r: "r < 1000" unfolding r_def by simp
  have k: "(1000::nat) \<noteq> 0" by simp
  show ?thesis
  proof (cases "r = 0")
    case True
    have "n + 999 = q * 1000 + 999" using n True by simp
    then have "(n + 999) div 1000 = (q * 1000 + 999) div 1000" by simp
    also have "\<dots> = q + 999 div 1000" using k by (rule div_mult_self3)
    finally show ?thesis using True unfolding q_def r_def by simp
  next
    case False
    then obtain r' where r': "r = Suc r'" by (cases r) auto
    have "n + 999 = Suc q * 1000 + r'" using n r' by simp
    then have "(n + 999) div 1000 = (Suc q * 1000 + r') div 1000" by simp
    also have "\<dots> = Suc q + r' div 1000" using k by (rule div_mult_self3)
    also have "r' div 1000 = 0" using r r' by simp
    finally show ?thesis using False unfolding q_def r_def by simp
  qed
qed

lemma count_batches_from:
  "length (batches_from data 0) = (length data + 999) div 1000"
proof -
  have "length (batches_from data 0) = length (map length (batches_from data 0))" by simp
  also have "\<dots> = length data div 1000 + (if length data mod 1000 = 0 then 0 else 1)"
    unfolding length_batches_from by (simp add: batch_size_def)
  finally show ?thesis by (simp only: ceil_div_1000)
qed

lemma insert_data_accepting:
  assumes ne: "\<not> df_empty df" and acc: "\<forall>h q b. drv h (ExecuteMany q b) = None"
  shows "insert_data drv log table_name df =
     Inr (length (rows df),
          log @ map (ExecuteMany (insert_query table_name (insert_data_columns (columns df))))
                  (batches_from (rows df) 0))"
  using ne by (simp add: insert_data_def Let_def insert_batches_accepting[OF acc])

lemma insert_data_no_rows: "rows df = [] \<Longrightarrow> insert_data drv log table_name df = Inr (0, log)"
  by (simp add: insert_data_def df_empty_def)

text \<open>
  Claim C2. For every non-empty dataset of \<open>n\<close> rows and a driver that accepts the grouped inserts,
  \<open>insert_data\<close> returns \<open>n\<close> after issuing exactly \<open>ceil(n/1000)\<close> grouped inserts and nothing else:
  \<open>n div 1000\<close> batches of 1000 rows, then one of \<open>n mod 1000\<close> rows when that is not zero. With
  2500 rows these are three grouped inserts of 1000, 1000 and 500 rows, and the result is 2500.
\<close>

theorem C2_insert_data_batches:
  assumes "\<not> df_empty df" and "\<forall>h q b. drv h (ExecuteMany q b) = None"
  shows "\<exists>q bs. insert_data drv log table_name df
                   = Inr (length (rows df), log @ map (ExecuteMany q) bs)
           \<and> length bs = (length (rows df) + 999) div 1000
           \<and> map length bs = replicate (length (rows df) div 1000) 1000 @
                 (if length (rows df) mod 1000 = 0 then [] else [length (rows df) mod 1000])"
proof (intro exI conjI)
  show "insert_data drv log table_name df =
     Inr (length (rows df),
          log @ map (ExecuteMany (insert_query table_name (insert_data_columns (columns df))))
                  (batches_from (rows df) 0))"
    using assms by (rule insert_data_accepting)
  show "length (batches_from (rows df) 0) = (length (rows df) + 999) div 1000"
    by (rule count_batches_from)
  show "map length (batches_from (rows df) 0) = replicate (length (rows df) div 1000) 1000 @
          (if length (rows df) mod 1000 = 0 then [] else [length (rows df) mod 1000])"
    by (simp add: length_batches_from batch_size_def)
qed

lemma frame_2500_not_empty: "\<not> df_empty frame_2500"
  by (simp add: df_empty_def frame_2500_def)

lemma frame_2500_rows: "length (rows frame_2500) = 2500"
  by (simp add: frame_2500_def)

lemma accept_all_executemany: "\<forall>h q b. accept_all h (ExecuteMany q b) = None"
  by (simp add: accept_all_def)

lemma sizes_2500:
  "((2500::nat) + 999) div 1000 = 3"
  "replicate ((2500::nat) div 1000) (1000::nat) @
     (if (2500::nat) mod 1000 = 0 then [] else [2500 mod 1000]) = [1000, 1000, 500]"
proof -
  show "((2500::nat) + 999) div 1000 = 3" by simp
  have "(2500::nat) div 1000 = Suc (Suc 0)" "(2500::nat) mod 1000 = 500" by simp_all
  then show "replicate ((2500::nat) div 1000) (1000::nat) @
     (if (2500::nat) mod 1000 = 0 then [] else [2500 mod 1000]) = [1000, 1000, 500]"
    by (simp only: replicate.simps) simp
qed

theorem C2_insert_data_batches_witness:
  "\<exists>q bs. insert_data accept_all [] ''t'' frame_2500 = Inr (2500, map (ExecuteMany q) bs)
          \<and> length bs = 3 \<and> map length bs = [1000, 1000, 500]"
proof -
  obtain q bs where
    r: "insert_data accept_all [] ''t'' frame_2500
          = Inr (length (rows frame_2500), [] @ map (ExecuteMany q) bs)"
    and n: "length bs = (length (rows frame_2500) + 999) div 1000"
    and l: "map length bs = replicate (length (rows frame_2500) div 1000) 1000 @
             (if length (rows frame_2500) mod 1000 = 0 then []
              else [length (rows frame_2500) mod 1000])"
    using C2_insert_data_batches[OF frame_2500_not_empty accept_all_executemany, of "[]" "''t''"]
    by (elim exE conjE)
  have "length bs = 3" using n unfolding frame_2500_rows sizes_2500 .
  moreover have "map length bs = [1000, 1000, 500]"
    using l unfolding frame_2500_rows sizes_2500 .
  moreover have "insert_data accept_all [] ''t'' frame_2500 = Inr (2500, map (ExecuteMany q) bs)"
    using r unfolding frame_2500_rows append_Nil .
  ultimately show ?thesis by (intro exI conjI)
qed

section \<open>The orchestrator\<close>

subsection \<open>The calls each step makes\<close>

lemma statements_no_rollback: "list_all is_statement cs \<Longrightarrow> count_list cs Rollback = 0"
  by (induction cs) auto

lemma statements_no_commit: "list_all is_statement cs \<Longrightarrow> count_list cs Commit = 0"
  by (induction cs) auto

lemma call_Inr: "call drv log c = Inr l \<Longrightarrow> l = log @ [c]"
  by (auto simp: call_def split: option.splits)

lemma call_Inl: "call drv log c = Inl (e, l) \<Longrightarrow> l = log @ [c]"
  by (auto simp: call_def split: option.splits)

lemma create_table_Inr:
  assumes "create_table drv log t df = Inr l"
  shows "\<exists>cs. l = log @ [Execute (drop_query t), Execute (create_query t cs)]"
  using assms
  by (auto simp: create_table_def Let_def split: sum.splits dest!: call_Inr)

lemma create_table_Inl:
  assumes "create_table drv log t df = Inl (e, l)"
  shows "\<exists>cs. l = log @ cs \<and> list_all is_statement cs"
proof (cases "columns_def df (create_table_columns (columns df))")
  case (Inl e')
  with assms have "l = log @ []" by (simp add: create_table_def)
  then show ?thesis by (intro exI[of _ "[]"]) simp
next
  case (Inr defs)
  let ?d = "Execute (drop_query t)"
  let ?c = "Execute (create_query t (join ('','' @ nl @ ''    '') defs))"
  show ?thesis
  proof (cases "call drv log ?d")
    case (Inl x)
    with assms Inr have "call drv log ?d = Inl (e, l)" by (simp add: create_table_def)
    then have "l = log @ [?d]" by (rule call_Inl)
    then show ?thesis by (intro exI[of _ "[?d]"]) simp
  next
    case r: (Inr l1)
    then have l1: "l1 = log @ [?d]" by (rule call_Inr)
    from assms Inr r have "call drv l1 ?c = Inl (e, l)" by (simp add: create_table_def)
    then have "l = l1 @ [?c]" by (rule call_Inl)
    with l1 show ?thesis by (intro exI[of _ "[?d, ?c]"]) simp
  qed
qed

lemma insert_batches_log:
  "(insert_batches drv q data i log = Inr l \<longrightarrow> (\<exists>cs. l = log @ cs \<and> list_all is_statement cs))
   \<and> (insert_batches drv q data i log = Inl (e, l) \<longrightarrow>
        (\<exists>cs. l = log @ cs \<and> list_all is_statement cs))"
proof (induction drv q data i log rule: insert_batches.induct)
  case (1 drv q data i log)
  show ?case
  proof (cases "i < length data")
    case False
    then have "insert_batches drv q data i log = Inr log"
      by (subst insert_batches.simps) simp
    then show ?thesis by (auto intro: exI[of _ "[]"])
  next
    case True
    let ?c = "ExecuteMany q (take batch_size (drop i data))"
    show ?thesis
    proof (cases "call drv log ?c")
      case (Inl x)
      then have r: "insert_batches drv q data i log = Inl x"
        by (subst insert_batches.simps) (simp add: True)
      obtain e' l' where x: "x = (e', l')" by (cases x)
      with Inl have "l' = log @ [?c]" by (auto dest: call_Inl)
      then show ?thesis using r x by (auto intro: exI[of _ "[?c]"])
    next
      case (Inr l1)
      then have l1: "l1 = log @ [?c]" by (rule call_Inr)
      have r: "insert_batches drv q data i log = insert_batches drv q data (i + batch_size) l1"
        by (subst insert_batches.simps) (simp add: True Inr)
      have ih: "(insert_batches drv q data (i + batch_size) l1 = Inr l \<longrightarrow>
                   (\<exists>cs. l = l1 @ cs \<and> list_all is_statement cs))
                \<and> (insert_batches drv q data (i + batch_size) l1 = Inl (e, l) \<longrightarrow>
                   (\<exists>cs. l = l1 @ cs \<and> list_all is_statement cs))"
        using True Inr by (rule "1.IH")
      have "\<exists>cs. l = log @ cs \<and> list_all is_statement cs"
        if "\<exists>cs. l = l1 @ cs \<and> list_all is_statement cs"
      proof -
        from that obtain cs where "l = l1 @ cs" "list_all is_statement cs" by blast
        with l1 have "l = log @ (?c # cs)" "list_all is_statement (?c # cs)" by simp_all
        then show ?thesis by blast
      qed
      with ih show ?thesis unfolding r by blast
    qed
  qed
qed

lemma insert_data_Inr:
  assumes "insert_data drv log t df = Inr (n, l)"
  shows "\<exists>cs. l = log @ cs \<and> list_all is_statement cs"
proof (cases "df_empty df")
  case True
  with assms have "l = log @ []" by (simp add: insert_data_def)
  then show ?thesis by (intro exI[of _ "[]"]) simp
next
  case False
  with assms
  have "insert_batches drv (insert_query t (insert_data_columns (columns df)))
          (rows df) 0 log = Inr l"
    by (auto simp: insert_data_def Let_def split: sum.splits)
  then show ?thesis using insert_batches_log by blast
qed

lemma insert_data_Inl:
  assumes "insert_data drv log t df = Inl (e, l)"
  shows "\<exists>cs. l = log @ cs \<and> list_all is_statement cs"
proof (cases "df_empty df")
  case True
  with assms show ?thesis by (simp add: insert_data_def)
next
  case False
  with assms
  have "insert_batches drv (insert_query t (insert_data_columns (columns df)))
          (rows df) 0 log = Inl (e, l)"
    by (auto simp: insert_data_def Let_def split: sum.splits)
  then show ?thesis using insert_batches_log by blast
qed

subsection \<open>One file\<close>

lemma try_block_Inr:
  assumes "try_block read_csv drv p t log = Inr (x, l)"
  shows "\<exists>cs. l = log @ cs @ [Commit] \<and> list_all is_statement cs"
proof -
  from assms obtain df l1 n l2 where
    c: "create_table drv log t df = Inr l1" and
    i: "insert_data drv l1 t df = Inr (n, l2)" and
    k: "call drv l2 Commit = Inr l"
    by (auto simp: try_block_def split: sum.splits prod.splits)
  from c obtain cs1 where 1: "l1 = log @ cs1" "list_all is_statement cs1"
    by (auto dest!: create_table_Inr)
  from i obtain cs2 where 2: "l2 = l1 @ cs2" "list_all is_statement cs2"
    by (auto dest!: insert_data_Inr)
  from k have "l = l2 @ [Commit]" by (rule call_Inr)
  with 1 2 have "l = log @ (cs1 @ cs2) @ [Commit]" "list_all is_statement (cs1 @ cs2)"
    by simp_all
  then show ?thesis by blast
qed

lemma try_block_Inl:
  assumes "try_block read_csv drv p t log = Inl (e, l)"
  shows "\<exists>cs. l = log @ cs \<and> count_list cs Rollback = 0"
proof (cases "read_csv p")
  case (Inl e')
  with assms have "l = log @ []" by (simp add: try_block_def)
  then show ?thesis by (intro exI[of _ "[]"]) simp
next
  case (Inr df)
  show ?thesis
  proof (cases "create_table drv log t df")
    case (Inl x)
    with assms Inr have "create_table drv log t df = Inl (e, l)" by (simp add: try_block_def)
    then obtain cs where "l = log @ cs" "list_all is_statement cs"
      by (auto dest!: create_table_Inl)
    then show ?thesis using statements_no_rollback by blast
  next
    case c: (Inr l1)
    then obtain cs1 where 1: "l1 = log @ cs1" "list_all is_statement cs1"
      by (auto dest!: create_table_Inr)
    show ?thesis
    proof (cases "insert_data drv l1 t df")
      case (Inl x)
      with assms Inr c have "insert_data drv l1 t df = Inl (e, l)" by (simp add: try_block_def)
      then obtain cs2 where "l = l1 @ cs2" "list_all is_statement cs2"
        by (auto dest!: insert_data_Inl)
      with 1 have "l = log @ (cs1 @ cs2)" "list_all is_statement (cs1 @ cs2)" by simp_all
      then show ?thesis using statements_no_rollback by blast
    next
      case i: (Inr y)
      obtain n l2 where y: "y = (n, l2)" by (cases y)
      with i obtain cs2 where 2: "l2 = l1 @ cs2" "list_all is_statement cs2"
        by (auto dest!: insert_data_Inr)
      from assms Inr c i y have "call drv l2 Commit = Inl (e, l)"
        by (auto simp: try_block_def split: sum.splits)
      then have "l = l2 @ [Commit]" by (rule call_Inl)
      with 1 2 have "l = log @ (cs1 @ cs2 @ [Commit])"
        "count_list (cs1 @ cs2 @ [Commit]) Rollback = 0"
        by (simp_all add: statements_no_rollback)
      then show ?thesis by blast
    qed
  qed
qed

lemma load_parse_error:
  assumes "read_csv p = Inl e" and "drv log Rollback = None"
  shows "load_csv_to_postgres read_csv drv p log =
     Inr (Failed (basename p) (get_table_name_from_filename (basename p)) e, log @ [Rollback])"
  using assms by (simp add: load_csv_to_postgres_def try_block_def call_def Let_def)

lemma load_create_error:
  assumes "read_csv p = Inr df"
    and "create_table drv log (get_table_name_from_filename (basename p)) df = Inl (e, l1)"
    and "drv l1 Rollback = None"
  shows "load_csv_to_postgres read_csv drv p log =
     Inr (Failed (basename p) (get_table_name_from_filename (basename p)) e, l1 @ [Rollback])"
  using assms by (simp add: load_csv_to_postgres_def try_block_def call_def Let_def)

lemma load_insert_error:
  assumes "read_csv p = Inr df"
    and "create_table drv log (get_table_name_from_filename (basename p)) df = Inr l1"
    and "insert_data drv l1 (get_table_name_from_filename (basename p)) df = Inl (e, l2)"
    and "drv l2 Rollback = None"
  shows "load_csv_to_postgres read_csv drv p log =
     Inr (Failed (basename p) (get_table_name_from_filename (basename p)) e, l2 @ [Rollback])"
  using assms by (simp add: load_csv_to_postgres_def try_block_def call_def Let_def)

lemma load_success:
  assumes "read_csv p = Inr df"
    and "create_table drv log (get_table_name_from_filename (basename p)) df = Inr l1"
    and "insert_data drv l1 (get_table_name_from_filename (basename p)) df = Inr (n, l2)"
    and "drv l2 Commit = None"
  shows "load_csv_to_postgres read_csv drv p log =
     Inr (Success (basename p) (get_table_name_from_filename (basename p)) n (length (columns df)),
          l2 @ [Commit])"
  using assms by (simp add: load_csv_to_postgres_def try_block_def call_def Let_def)

lemma load_commit_error:
  assumes "read_csv p = Inr df"
    and "create_table drv log (get_table_name_from_filename (basename p)) df = Inr l1"
    and "insert_data drv l1 (get_table_name_from_filename (basename p)) df = Inr (n, l2)"
    and "drv l2 Commit = Some e"
    and "drv (l2 @ [Commit]) Rollback = None"
  shows "load_csv_to_postgres read_csv drv p log =
     Inr (Failed (basename p) (get_table_name_from_filename (basename p)) e,
          l2 @ [Commit, Rollback])"
  using assms by (simp add: load_csv_to_postgres_def try_block_def call_def Let_def)

lemma status_cases:
  "status r = ''failed'' \<longleftrightarrow> (\<exists>f t e. r = Failed f t e)"
  "status r = ''success'' \<longleftrightarrow> (\<exists>f t n k. r = Success f t n k)"
  by (cases r; simp)+

lemma load_calls:
  assumes "load_csv_to_postgres read_csv drv p log = Inr (r, l)"
  shows "\<exists>cs. l = log @ cs
           \<and> count_list cs Rollback = (if status r = ''failed'' then 1 else 0)
           \<and> (status r = ''success'' \<longrightarrow> cs \<noteq> [] \<and> last cs = Commit)"
proof (cases "try_block read_csv drv p (get_table_name_from_filename (basename p)) log")
  case (Inr y)
  obtain x l' where y: "y = (x, l')" by (cases y)
  obtain n k where x: "x = (n, k)" by (cases x)
  from assms Inr y x
  have r: "r = Success (basename p) (get_table_name_from_filename (basename p)) n k" and "l = l'"
    by (simp_all add: load_csv_to_postgres_def Let_def)
  with Inr y obtain cs where cs: "l = log @ cs @ [Commit]" "list_all is_statement cs"
    by (auto dest!: try_block_Inr)
  have s: "status r \<noteq> ''failed''" "status r = ''success''" using r by simp_all
  have "count_list (cs @ [Commit]) Rollback = 0" using cs(2) by (simp add: statements_no_rollback)
  then have "l = log @ (cs @ [Commit])
      \<and> count_list (cs @ [Commit]) Rollback = (if status r = ''failed'' then 1 else 0)
      \<and> (status r = ''success'' \<longrightarrow> cs @ [Commit] \<noteq> [] \<and> last (cs @ [Commit]) = Commit)"
    using cs(1) s by simp
  then show ?thesis by (rule exI)
next
  case (Inl y)
  obtain e l' where y: "y = (e, l')" by (cases y)
  from assms Inl y
  have r: "r = Failed (basename p) (get_table_name_from_filename (basename p)) e"
    and k: "call drv l' Rollback = Inr l"
    by (auto simp: load_csv_to_postgres_def Let_def split: sum.splits)
  from Inl y obtain cs where cs: "l' = log @ cs" "count_list cs Rollback = 0"
    by (auto dest!: try_block_Inl)
  from k have l: "l = l' @ [Rollback]" by (rule call_Inr)
  have s: "status r = ''failed''" "status r \<noteq> ''success''" using r by simp_all
  have "l = log @ (cs @ [Rollback])
      \<and> count_list (cs @ [Rollback]) Rollback = (if status r = ''failed'' then 1 else 0)
      \<and> (status r = ''success'' \<longrightarrow> cs @ [Rollback] \<noteq> [] \<and> last (cs @ [Rollback]) = Commit)"
    using cs l s by simp
  then show ?thesis by (rule exI)
qed

lemma load_filename:
  assumes "load_csv_to_postgres read_csv drv p log = Inr (r, l)"
  shows "result_filename r = basename p"
  using assms
  by (auto simp: load_csv_to_postgres_def Let_def split: sum.splits prod.splits)

lemma load_returns:
  assumes "\<forall>h. drv h Rollback = None"
  shows "\<exists>r l. load_csv_to_postgres read_csv drv p log = Inr (r, l)"
  using assms
  by (auto simp: load_csv_to_postgres_def Let_def call_def split: sum.splits prod.splits)

text \<open>A rollback that raises: its exception leaves the function.\<close>

lemma load_parse_error_rollback_raises:
  assumes "read_csv p = Inl e" and "drv log Rollback = Some e'"
  shows "load_csv_to_postgres read_csv drv p log = Inl (e', log @ [Rollback])"
  using assms by (simp add: load_csv_to_postgres_def try_block_def call_def Let_def)

lemma load_create_error_rollback_raises:
  assumes "read_csv p = Inr df"
    and "create_table drv log (get_table_name_from_filename (basename p)) df = Inl (e, l1)"
    and "drv l1 Rollback = Some e'"
  shows "load_csv_to_postgres read_csv drv p log = Inl (e', l1 @ [Rollback])"
  using assms by (simp add: load_csv_to_postgres_def try_block_def call_def Let_def)

lemma load_insert_error_rollback_raises:
  assumes "read_csv p = Inr df"
    and "create_table drv log (get_table_name_from_filename (basename p)) df = Inr l1"
    and "insert_data drv l1 (get_table_name_from_filename (basename p)) df = Inl (e, l2)"
    and "drv l2 Rollback = Some e'"
  shows "load_csv_to_postgres read_csv drv p log = Inl (e', l2 @ [Rollback])"
  using assms by (simp add: load_csv_to_postgres_def try_block_def call_def Let_def)

lemma load_commit_error_rollback_raises:
  assumes "read_csv p = Inr df"
    and "create_table drv log (get_table_name_from_filename (basename p)) df = Inr l1"
    and "insert_data drv l1 (get_table_name_from_filename (basename p)) df = Inr (n, l2)"
    and "drv l2 Commit = Some e"
    and "drv (l2 @ [Commit]) Rollback = Some e'"
  shows "load_csv_to_postgres read_csv drv p log = Inl (e', l2 @ [Commit, Rollback])"
  using assms by (simp add: load_csv_to_postgres_def try_block_def call_def Let_def)

lemma call_Inl_answer: "call drv log c = Inl (e, l) \<Longrightarrow> drv log c = Some e"
  by (auto simp: call_def split: option.splits)

lemma load_raises_calls:
  assumes "load_csv_to_postgres read_csv drv p log = Inl (e', l)"
  shows "\<exists>cs. l = log @ cs @ [Rollback]
           \<and> count_list (cs @ [Rollback]) Rollback = 1
           \<and> drv (log @ cs) Rollback = Some e'"
proof (cases "try_block read_csv drv p (get_table_name_from_filename (basename p)) log")
  case (Inr y)
  with assms show ?thesis
    by (auto simp: load_csv_to_postgres_def Let_def split: prod.splits)
next
  case (Inl y)
  obtain e l1 where y: "y = (e, l1)" by (cases y)
  from assms Inl y have k: "call drv l1 Rollback = Inl (e', l)"
    by (auto simp: load_csv_to_postgres_def Let_def split: sum.splits)
  from Inl y obtain cs where cs: "l1 = log @ cs" "count_list cs Rollback = 0"
    by (auto dest!: try_block_Inl)
  from k have "l = l1 @ [Rollback]" by (rule call_Inl)
  moreover from k have "drv l1 Rollback = Some e'" by (rule call_Inl_answer)
  ultimately have "l = log @ cs @ [Rollback]
           \<and> count_list (cs @ [Rollback]) Rollback = 1
           \<and> drv (log @ cs) Rollback = Some e'"
    using cs by simp
  then show ?thesis by (rule exI)
qed

subsection \<open>The loop over the files\<close>

lemma process_files_returns:
  assumes "\<forall>h. drv h Rollback = None"
  shows "\<exists>rs log'. process_files read_csv drv files results log = Inr (results @ rs, log')
           \<and> length rs = length files
           \<and> map result_filename rs = map basename files"
proof (induction files arbitrary: results log)
  case Nil
  show ?case by simp
next
  case (Cons f fs)
  obtain r l where r: "load_csv_to_postgres read_csv drv f log = Inr (r, l)"
    using load_returns[where drv = drv, OF assms] by blast
  then have fn: "result_filename r = basename f" by (rule load_filename)
  obtain rs log' where
    rs: "process_files read_csv drv fs (results @ [r]) l = Inr ((results @ [r]) @ rs, log')"
      "length rs = length fs" "map result_filename rs = map basename fs"
    using Cons.IH by blast
  have "process_files read_csv drv (f # fs) results log = Inr (results @ (r # rs), log')"
    using r rs(1) by simp
  moreover have "length (r # rs) = length (f # fs)" using rs(2) by simp
  moreover have "map result_filename (r # rs) = map basename (f # fs)" using rs(3) fn by simp
  ultimately show ?case by blast
qed

subsection \<open>A driver whose answers do not depend on the earlier calls\<close>

lemma verdict_Inl: "verdict x = Some e \<longleftrightarrow> (\<exists>l. x = Inl (e, l))"
  by (cases x rule: verdict.cases) auto

lemma verdict_Inr: "verdict x = None \<longleftrightarrow> (\<exists>y. x = Inr y)"
  by (cases x rule: verdict.cases) auto

lemma call_verdict: "verdict (call drv log c) = drv log c"
  by (simp add: call_def split: option.splits)

lemma call_stateless:
  assumes "\<forall>h h' c. drv h c = drv h' c"
  shows "verdict (call drv log c) = verdict (call drv log' c)"
  using assms by (simp add: call_verdict)

lemma create_table_stateless:
  assumes st: "\<forall>h h' c. drv h c = drv h' c"
  shows "verdict (create_table drv log t df) = verdict (create_table drv log' t df)"
proof (cases "columns_def df (create_table_columns (columns df))")
  case (Inl e)
  then show ?thesis by (simp add: create_table_def)
next
  case (Inr defs)
  let ?d = "Execute (drop_query t)"
  let ?c = "Execute (create_query t (join ('','' @ nl @ ''    '') defs))"
  have d: "drv log ?d = drv log' ?d" using st by blast
  show ?thesis
  proof (cases "drv log ?d")
    case (Some e)
    with d have "drv log' ?d = Some e" by simp
    with Some Inr show ?thesis by (simp add: create_table_def call_def)
  next
    case None
    with d have n': "drv log' ?d = None" by simp
    have "create_table drv log t df = call drv (log @ [?d]) ?c"
      using None Inr by (simp add: create_table_def Let_def call_accepted)
    moreover have "create_table drv log' t df = call drv (log' @ [?d]) ?c"
      using n' Inr by (simp add: create_table_def Let_def call_accepted)
    moreover have "drv (log @ [?d]) ?c = drv (log' @ [?d]) ?c" using st by blast
    ultimately show ?thesis by (simp add: call_verdict)
  qed
qed

lemma insert_batches_stateless:
  assumes st: "\<forall>h h' c. drv h c = drv h' c"
  shows "verdict (insert_batches drv q data i log) = verdict (insert_batches drv q data i log')"
  using st
proof (induction drv q data i log arbitrary: log' rule: insert_batches.induct)
  case (1 drv q data i log)
  show ?case
  proof (cases "i < length data")
    case False
    have "insert_batches drv q data i log = Inr log"
      by (subst insert_batches.simps) (simp add: False)
    moreover have "insert_batches drv q data i log' = Inr log'"
      by (subst insert_batches.simps) (simp add: False)
    ultimately show ?thesis by simp
  next
    case True
    let ?c = "ExecuteMany q (take batch_size (drop i data))"
    have d: "drv log ?c = drv log' ?c" using "1.prems" by blast
    show ?thesis
    proof (cases "drv log ?c")
      case (Some e)
      with d have s': "drv log' ?c = Some e" by simp
      have "insert_batches drv q data i log = Inl (e, log @ [?c])"
        using Some by (subst insert_batches.simps) (simp add: True call_raised)
      moreover have "insert_batches drv q data i log' = Inl (e, log' @ [?c])"
        using s' by (subst insert_batches.simps) (simp add: True call_raised)
      ultimately show ?thesis by simp
    next
      case None
      with d have n': "drv log' ?c = None" by simp
      have c: "call drv log ?c = Inr (log @ [?c])" using None by (rule call_accepted)
      have c': "call drv log' ?c = Inr (log' @ [?c])" using n' by (rule call_accepted)
      have "insert_batches drv q data i log
            = insert_batches drv q data (i + batch_size) (log @ [?c])"
        by (subst insert_batches.simps) (simp add: True c)
      moreover have "insert_batches drv q data i log'
            = insert_batches drv q data (i + batch_size) (log' @ [?c])"
        by (subst insert_batches.simps) (simp add: True c')
      moreover have "verdict (insert_batches drv q data (i + batch_size) (log @ [?c]))
            = verdict (insert_batches drv q data (i + batch_size) (log' @ [?c]))"
        using True c "1.prems" by (rule "1.IH")
      ultimately show ?thesis by simp
    qed
  qed
qed

lemma insert_data_stateless:
  assumes st: "\<forall>h h' c. drv h c = drv h' c"
  shows "map_sum fst fst (insert_data drv log t df) = map_sum fst fst (insert_data drv log' t df)"
proof (cases "df_empty df")
  case True
  then show ?thesis by (simp add: insert_data_def)
next
  case False
  let ?run = "insert_batches drv (insert_query t (insert_data_columns (columns df)))
                (rows df) 0"
  have v: "verdict (?run log) = verdict (?run log')" using st by (rule insert_batches_stateless)
  show ?thesis
  proof (cases "verdict (?run log)")
    case None
    with v have "verdict (?run log') = None" by simp
    with None obtain l l' where "?run log = Inr l" "?run log' = Inr l'"
      unfolding verdict_Inr by blast
    then show ?thesis using False by (simp add: insert_data_def Let_def)
  next
    case (Some e)
    with v have "verdict (?run log') = Some e" by simp
    with Some obtain l l' where "?run log = Inl (e, l)" "?run log' = Inl (e, l')"
      unfolding verdict_Inl by blast
    then show ?thesis using False by (simp add: insert_data_def Let_def)
  qed
qed

lemma try_block_stateless:
  assumes st: "\<forall>h h' c. drv h c = drv h' c"
  shows "map_sum fst fst (try_block read_csv drv p t log)
         = map_sum fst fst (try_block read_csv drv p t log')"
proof (cases "read_csv p")
  case (Inl e)
  then show ?thesis by (simp add: try_block_def)
next
  case (Inr df)
  have v: "verdict (create_table drv log t df) = verdict (create_table drv log' t df)"
    using st by (rule create_table_stateless)
  show ?thesis
  proof (cases "verdict (create_table drv log t df)")
    case (Some e)
    with v have "verdict (create_table drv log' t df) = Some e" by simp
    with Some obtain l l' where
      "create_table drv log t df = Inl (e, l)" "create_table drv log' t df = Inl (e, l')"
      unfolding verdict_Inl by blast
    then show ?thesis using Inr by (simp add: try_block_def)
  next
    case None
    with v have "verdict (create_table drv log' t df) = None" by simp
    with None obtain l1 l1' where
      c: "create_table drv log t df = Inr l1" "create_table drv log' t df = Inr l1'"
      unfolding verdict_Inr by blast
    have i: "map_sum fst fst (insert_data drv l1 t df) = map_sum fst fst (insert_data drv l1' t df)"
      using st by (rule insert_data_stateless)
    show ?thesis
    proof (cases "insert_data drv l1 t df")
      case (Inl x)
      obtain e l2 where x: "x = (e, l2)" by (cases x)
      with Inl i obtain l2' where "insert_data drv l1' t df = Inl (e, l2')"
        by (cases "insert_data drv l1' t df") auto
      with Inl x c Inr show ?thesis by (simp add: try_block_def)
    next
      case (Inr y)
      obtain n l2 where y: "y = (n, l2)" by (cases y)
      with Inr i obtain l2' where i': "insert_data drv l1' t df = Inr (n, l2')"
        by (cases "insert_data drv l1' t df") auto
      have "drv l2 Commit = drv l2' Commit" using st by blast
      then show ?thesis
        using Inr y i' c \<open>read_csv p = Inr df\<close>
        by (simp add: try_block_def call_def split: option.splits)
    qed
  qed
qed

lemma load_stateless:
  assumes st: "\<forall>h h' c. drv h c = drv h' c"
    and r: "load_csv_to_postgres read_csv drv p log = Inr (r, l)"
  shows "\<exists>l'. load_csv_to_postgres read_csv drv p log' = Inr (r, l')"
proof -
  let ?t = "get_table_name_from_filename (basename p)"
  have t: "map_sum fst fst (try_block read_csv drv p ?t log)
           = map_sum fst fst (try_block read_csv drv p ?t log')"
    using st by (rule try_block_stateless)
  show ?thesis
  proof (cases "try_block read_csv drv p ?t log")
    case (Inr y)
    obtain x l1 where y: "y = (x, l1)" by (cases y)
    with Inr t obtain l1' where "try_block read_csv drv p ?t log' = Inr (x, l1')"
      by (cases "try_block read_csv drv p ?t log'") auto
    with Inr y r show ?thesis
      by (auto simp: load_csv_to_postgres_def Let_def split: prod.splits)
  next
    case (Inl y)
    obtain e l1 where y: "y = (e, l1)" by (cases y)
    with Inl t obtain l1' where t': "try_block read_csv drv p ?t log' = Inl (e, l1')"
      by (cases "try_block read_csv drv p ?t log'") auto
    have "drv l1 Rollback = drv l1' Rollback" using st by blast
    with Inl y t' r show ?thesis
      by (auto simp: load_csv_to_postgres_def Let_def call_def split: option.splits)
  qed
qed

lemma process_files_independent:
  assumes rb: "\<forall>h. drv h Rollback = None" and st: "\<forall>h h' c. drv h c = drv h' c"
  shows "\<exists>rs log'. process_files read_csv drv files results log = Inr (results @ rs, log')
           \<and> list_all2 (\<lambda>f r. \<exists>l. load_csv_to_postgres read_csv drv f [] = Inr (r, l)) files rs"
proof (induction files arbitrary: results log)
  case Nil
  show ?case by simp
next
  case (Cons f fs)
  obtain r l where r: "load_csv_to_postgres read_csv drv f log = Inr (r, l)"
    using load_returns[where drv = drv, OF rb] by blast
  then have alone: "\<exists>l. load_csv_to_postgres read_csv drv f [] = Inr (r, l)"
    using st by (intro load_stateless)
  obtain rs log' where
    rs: "process_files read_csv drv fs (results @ [r]) l = Inr ((results @ [r]) @ rs, log')"
      "list_all2 (\<lambda>f r. \<exists>l. load_csv_to_postgres read_csv drv f [] = Inr (r, l)) fs rs"
    using Cons.IH by blast
  have "process_files read_csv drv (f # fs) results log = Inr (results @ (r # rs), log')"
    using r rs(1) by simp
  moreover have
    "list_all2 (\<lambda>f r. \<exists>l. load_csv_to_postgres read_csv drv f [] = Inr (r, l)) (f # fs) (r # rs)"
    using alone rs(2) by simp
  ultimately show ?case by blast
qed

subsection \<open>An exception that leaves the loop\<close>

lemma process_files_append:
  "process_files read_csv drv (xs @ ys) results log =
     (case process_files read_csv drv xs results log of
        Inl x \<Rightarrow> Inl x
      | Inr (rs, l) \<Rightarrow> process_files read_csv drv ys rs l)"
  by (induction xs arbitrary: results log) (auto split: sum.splits)

lemma process_files_stops:
  assumes "process_files read_csv drv files_before results log = Inr (rs, l)"
    and "load_csv_to_postgres read_csv drv csv_file l = Inl x"
  shows "process_files read_csv drv (files_before @ csv_file # files_after) results log = Inl x"
  using assms by (simp add: process_files_append)

subsection \<open>Runs of the example environments\<close>

lemma example_names:
  "''b.csv'' = basename ''data/b.csv''"
  "''b'' = get_table_name_from_filename ''b.csv''"
  "''a.csv'' = basename ''data/a.csv''"
  "''a'' = get_table_name_from_filename ''a.csv''"
  "''empty.csv'' = basename ''data/empty.csv''"
  "''empty'' = get_table_name_from_filename ''empty.csv''"
  by code_simp+

lemma example_reader_files:
  "example_reader ''data/b.csv'' = Inl ''parse error''"
  "example_reader ''data/a.csv'' = Inr frame_xy"
  "example_reader ''data/empty.csv'' = Inr frame_no_rows"
  by (simp_all add: example_reader_def)

lemma accept_all_accepts: "accept_all h c = None"
  by (simp add: accept_all_def)

lemma accept_all_rollback: "\<forall>h. accept_all h Rollback = None"
  by (simp add: accept_all_def)

lemma frame_facts:
  "rows frame_no_rows = []"
  "length (columns frame_no_rows) = 2"
  "length (columns frame_xy) = 2"
  by (simp_all add: frame_no_rows_def frame_xy_def)

lemma create_table_empty_example:
  "create_table accept_all [] ''empty'' frame_no_rows =
     Inr [Execute (drop_query ''empty''),
          Execute (create_query ''empty''
            (join ('','' @ nl @ ''    '') [dq @ ''x'' @ dq @ '' TEXT'', dq @ ''y'' @ dq @ '' TEXT'']))]"
  by code_simp

lemma create_table_xy_example:
  "create_table accept_all [] ''a'' frame_xy =
     Inr [Execute (drop_query ''a''),
          Execute (create_query ''a''
            (join ('','' @ nl @ ''    '') [dq @ ''x'' @ dq @ '' TEXT'', dq @ ''y'' @ dq @ '' TEXT'']))]"
  by code_simp

lemma insert_data_xy_example:
  "insert_data accept_all
     [Execute (drop_query ''a''),
      Execute (create_query ''a''
        (join ('','' @ nl @ ''    '') [dq @ ''x'' @ dq @ '' TEXT'', dq @ ''y'' @ dq @ '' TEXT'']))]
     ''a'' frame_xy =
   Inr (2, [Execute (drop_query ''a''),
            Execute (create_query ''a''
              (join ('','' @ nl @ ''    '') [dq @ ''x'' @ dq @ '' TEXT'', dq @ ''y'' @ dq @ '' TEXT''])),
            ExecuteMany (insert_query ''a'' [''x'', ''y''])
              [[Val ''u'', Val ''v''], [Val ''w'', Val ''z'']]])"
  by code_simp

lemma connection_lost_answers: "connection_lost h c = Some ''connection already closed''"
  by (simp add: connection_lost_def)

lemma create_table_lost_example:
  "create_table connection_lost [] ''a'' frame_xy =
     Inl (''connection already closed'', [Execute (drop_query ''a'')])"
  by code_simp

lemma load_lost_example:
  "load_csv_to_postgres example_reader connection_lost ''data/a.csv'' [] =
     Inl (''connection already closed'', [Execute (drop_query ''a''), Rollback])"
  by code_simp

subsection \<open>Zero rows\<close>

text \<open>
  Claim C8. For every dataset with zero rows, \<open>insert_data\<close> returns 0 and makes no call at all,
  whatever the driver; this is not an error. In \<open>load_csv_to_postgres\<close> the table has been created
  before: when \<open>create_table\<close> succeeded and the commit is accepted, the calls of the file are the
  \<open>DROP TABLE\<close> and the \<open>CREATE TABLE\<close> statements and the commit, and the result is a success with
  0 rows.
\<close>

theorem C8_no_rows:
  assumes "filename = basename csv_path"
    and "table_name = get_table_name_from_filename filename"
  shows
  "(rows df = [] \<longrightarrow> insert_data drv log t df = Inr (0, log))
   \<and> (read_csv csv_path = Inr df \<and> rows df = []
        \<and> create_table drv log table_name df = Inr l1 \<and> drv l1 Commit = None \<longrightarrow>
        load_csv_to_postgres read_csv drv csv_path log =
          Inr (Success filename table_name 0 (length (columns df)), l1 @ [Commit])
        \<and> (\<exists>cs. l1 = log @ [Execute (drop_query table_name),
                               Execute (create_query table_name cs)]))"
proof (intro conjI impI)
  assume "rows df = []"
  then show "insert_data drv log t df = Inr (0, log)" by (rule insert_data_no_rows)
next
  assume h: "read_csv csv_path = Inr df \<and> rows df = []
        \<and> create_table drv log table_name df = Inr l1 \<and> drv l1 Commit = None"
  then have "insert_data drv l1 table_name df = Inr (0, l1)" by (simp add: insert_data_no_rows)
  with h show "load_csv_to_postgres read_csv drv csv_path log =
          Inr (Success filename table_name 0 (length (columns df)), l1 @ [Commit])"
    unfolding assms by (intro load_success) simp_all
next
  assume "read_csv csv_path = Inr df \<and> rows df = []
        \<and> create_table drv log table_name df = Inr l1 \<and> drv l1 Commit = None"
  then have "create_table drv log table_name df = Inr l1" by simp
  then show "\<exists>cs. l1 = log @ [Execute (drop_query table_name),
                               Execute (create_query table_name cs)]"
    by (rule create_table_Inr)
qed

theorem C8_no_rows_witness:
  "insert_data accept_all [] ''empty'' frame_no_rows = Inr (0, [])
   \<and> load_csv_to_postgres example_reader accept_all ''data/empty.csv'' [] =
       Inr (Success ''empty.csv'' ''empty'' 0 2,
            [Execute (drop_query ''empty''),
             Execute (create_query ''empty''
               (join ('','' @ nl @ ''    '') [dq @ ''x'' @ dq @ '' TEXT'', dq @ ''y'' @ dq @ '' TEXT''])),
             Commit])"
proof (rule conjI)
  note th = C8_no_rows[OF example_names(5) example_names(6),
      where df = frame_no_rows and drv = accept_all and log = "[]"
        and read_csv = example_reader]
  show "insert_data accept_all [] ''empty'' frame_no_rows = Inr (0, [])"
    by (rule th[THEN conjunct1, THEN mp, OF frame_facts(1)])
  have h: "example_reader ''data/empty.csv'' = Inr frame_no_rows \<and> rows frame_no_rows = []
        \<and> create_table accept_all [] ''empty'' frame_no_rows =
            Inr [Execute (drop_query ''empty''),
                 Execute (create_query ''empty''
                   (join ('','' @ nl @ ''    '') [dq @ ''x'' @ dq @ '' TEXT'', dq @ ''y'' @ dq @ '' TEXT'']))]
        \<and> accept_all
            [Execute (drop_query ''empty''),
             Execute (create_query ''empty''
               (join ('','' @ nl @ ''    '') [dq @ ''x'' @ dq @ '' TEXT'', dq @ ''y'' @ dq @ '' TEXT'']))]
            Commit = None"
    by (intro conjI example_reader_files(3) frame_facts(1) create_table_empty_example
          accept_all_accepts)
  have "load_csv_to_postgres example_reader accept_all ''data/empty.csv'' [] =
       Inr (Success ''empty.csv'' ''empty'' 0 (length (columns frame_no_rows)),
            [Execute (drop_query ''empty''),
             Execute (create_query ''empty''
               (join ('','' @ nl @ ''    '') [dq @ ''x'' @ dq @ '' TEXT'', dq @ ''y'' @ dq @ '' TEXT'']))]
            @ [Commit])"
    by (rule th[THEN conjunct2, THEN mp, OF h, THEN conjunct1])
  then show "load_csv_to_postgres example_reader accept_all ''data/empty.csv'' [] =
       Inr (Success ''empty.csv'' ''empty'' 0 2,
            [Execute (drop_query ''empty''),
             Execute (create_query ''empty''
               (join ('','' @ nl @ ''    '') [dq @ ''x'' @ dq @ '' TEXT'', dq @ ''y'' @ dq @ '' TEXT''])),
             Commit])"
    unfolding frame_facts(2) append.simps .
qed

subsection \<open>Commit, rollback and the loop\<close>

text \<open>
  Claim C3, as stated, fails in two ways. The commit is inside the \<open>try\<close> block: with a driver
  whose commit raises, loading completes and the result is still a failure. The rollback is in the
  handler: with a driver whose every call raises, the exception of the rollback leaves
  \<open>load_csv_to_postgres\<close> and the loop, and the second file is never processed.
\<close>

theorem C3_commit_or_rollback_raises_counterexample:
  "insert_data commit_raises
     [Execute (drop_query ''a''),
      Execute (create_query ''a''
        (join ('','' @ nl @ ''    '') [dq @ ''x'' @ dq @ '' TEXT'', dq @ ''y'' @ dq @ '' TEXT'']))]
     ''a'' frame_xy =
   Inr (2, [Execute (drop_query ''a''),
            Execute (create_query ''a''
              (join ('','' @ nl @ ''    '') [dq @ ''x'' @ dq @ '' TEXT'', dq @ ''y'' @ dq @ '' TEXT''])),
            ExecuteMany (insert_query ''a'' [''x'', ''y''])
              [[Val ''u'', Val ''v''], [Val ''w'', Val ''z'']]])
   \<and> load_csv_to_postgres example_reader commit_raises ''data/a.csv'' [] =
       Inr (Failed ''a.csv'' ''a'' ''commit failed'',
            [Execute (drop_query ''a''),
             Execute (create_query ''a''
               (join ('','' @ nl @ ''    '') [dq @ ''x'' @ dq @ '' TEXT'', dq @ ''y'' @ dq @ '' TEXT''])),
             ExecuteMany (insert_query ''a'' [''x'', ''y''])
               [[Val ''u'', Val ''v''], [Val ''w'', Val ''z'']],
             Commit, Rollback])
   \<and> process_files example_reader connection_lost [''data/a.csv'', ''data/b.csv''] [] [] =
       Inl (''connection already closed'', [Execute (drop_query ''a''), Rollback])"
  by code_simp

text \<open>
  Claim C3, amended. For every input file, with \<open>filename\<close> its base name and \<open>table_name\<close> the
  table name: if parsing, schema building or provisioning (\<open>create_table\<close>), loading
  (\<open>insert_data\<close>) or the commit raises an error and the rollback that follows is accepted,
  \<open>load_csv_to_postgres\<close> returns a result with status \<open>failed\<close> and the description of that error; if
  loading completes and the commit is accepted, it returns status \<open>success\<close> with the inserted row
  count and the column count. Whenever a result is returned, the calls of the file hold exactly one
  rollback for a failure and none for a success, which ends with the commit. When no rollback
  raises, the loop gives every file of the list a result, in the order of the list; when moreover
  the answers of the driver do not depend on the earlier calls, the result of each file is the
  one it gets when it is processed alone. If the rollback itself raises, after any of these errors,
  its exception leaves \<open>load_csv_to_postgres\<close>; whenever an exception leaves it, the calls of the
  file hold exactly one rollback, the last call, and the exception is the one of that rollback. The
  exception ends the loop: the files after that one are not processed.
\<close>

theorem C3_load_csv_to_postgres:
  assumes "filename = basename csv_path"
    and "table_name = get_table_name_from_filename filename"
  shows
  "(read_csv csv_path = Inl e \<and> drv log Rollback = None \<longrightarrow>
      load_csv_to_postgres read_csv drv csv_path log =
        Inr (Failed filename table_name e, log @ [Rollback]))
   \<and> (read_csv csv_path = Inr df \<and> create_table drv log table_name df = Inl (e, l1)
        \<and> drv l1 Rollback = None \<longrightarrow>
      load_csv_to_postgres read_csv drv csv_path log =
        Inr (Failed filename table_name e, l1 @ [Rollback]))
   \<and> (read_csv csv_path = Inr df \<and> create_table drv log table_name df = Inr l1
        \<and> insert_data drv l1 table_name df = Inl (e, l2) \<and> drv l2 Rollback = None \<longrightarrow>
      load_csv_to_postgres read_csv drv csv_path log =
        Inr (Failed filename table_name e, l2 @ [Rollback]))
   \<and> (read_csv csv_path = Inr df \<and> create_table drv log table_name df = Inr l1
        \<and> insert_data drv l1 table_name df = Inr (n, l2) \<and> drv l2 Commit = None \<longrightarrow>
      load_csv_to_postgres read_csv drv csv_path log =
        Inr (Success filename table_name n (length (columns df)), l2 @ [Commit]))
   \<and> (read_csv csv_path = Inr df \<and> create_table drv log table_name df = Inr l1
        \<and> insert_data drv l1 table_name df = Inr (n, l2) \<and> drv l2 Commit = Some e
        \<and> drv (l2 @ [Commit]) Rollback = None \<longrightarrow>
      load_csv_to_postgres read_csv drv csv_path log =
        Inr (Failed filename table_name e, l2 @ [Commit, Rollback]))
   \<and> (load_csv_to_postgres read_csv drv csv_path log = Inr (r, l) \<longrightarrow>
      (\<exists>cs. l = log @ cs
          \<and> count_list cs Rollback = (if status r = ''failed'' then 1 else 0)
          \<and> (status r = ''success'' \<longrightarrow> cs \<noteq> [] \<and> last cs = Commit)))
   \<and> ((\<forall>h. drv h Rollback = None) \<longrightarrow>
      (\<exists>rs log'. process_files read_csv drv csv_files results log = Inr (results @ rs, log')
          \<and> length rs = length csv_files
          \<and> map result_filename rs = map basename csv_files))
   \<and> ((\<forall>h. drv h Rollback = None) \<and> (\<forall>h h' c. drv h c = drv h' c) \<longrightarrow>
      (\<exists>rs log'. process_files read_csv drv csv_files results log = Inr (results @ rs, log')
          \<and> list_all2 (\<lambda>f r. \<exists>l. load_csv_to_postgres read_csv drv f [] = Inr (r, l))
                csv_files rs))
   \<and> (read_csv csv_path = Inl e \<and> drv log Rollback = Some e' \<longrightarrow>
      load_csv_to_postgres read_csv drv csv_path log = Inl (e', log @ [Rollback]))
   \<and> (read_csv csv_path = Inr df \<and> create_table drv log table_name df = Inl (e, l1)
        \<and> drv l1 Rollback = Some e' \<longrightarrow>
      load_csv_to_postgres read_csv drv csv_path log = Inl (e', l1 @ [Rollback]))
   \<and> (read_csv csv_path = Inr df \<and> create_table drv log table_name df = Inr l1
        \<and> insert_data drv l1 table_name df = Inl (e, l2) \<and> drv l2 Rollback = Some e' \<longrightarrow>
      load_csv_to_postgres read_csv drv csv_path log = Inl (e', l2 @ [Rollback]))
   \<and> (read_csv csv_path = Inr df \<and> create_table drv log table_name df = Inr l1
        \<and> insert_data drv l1 table_name df = Inr (n, l2) \<and> drv l2 Commit = Some e
        \<and> drv (l2 @ [Commit]) Rollback = Some e' \<longrightarrow>
      load_csv_to_postgres read_csv drv csv_path log = Inl (e', l2 @ [Commit, Rollback]))
   \<and> (load_csv_to_postgres read_csv drv csv_path log = Inl (e', l) \<longrightarrow>
      (\<exists>cs. l = log @ cs @ [Rollback]
          \<and> count_list (cs @ [Rollback]) Rollback = 1
          \<and> drv (log @ cs) Rollback = Some e'))
   \<and> (process_files read_csv drv files_before results log = Inr (rs, l)
        \<and> load_csv_to_postgres read_csv drv csv_file l = Inl x \<longrightarrow>
      process_files read_csv drv (files_before @ csv_file # files_after) results log = Inl x)"
proof (intro conjI impI)
  assume "read_csv csv_path = Inl e \<and> drv log Rollback = None"
  then show "load_csv_to_postgres read_csv drv csv_path log =
        Inr (Failed filename table_name e, log @ [Rollback])"
    unfolding assms by (elim conjE) (rule load_parse_error; assumption)
next
  assume "read_csv csv_path = Inr df \<and> create_table drv log table_name df = Inl (e, l1)
        \<and> drv l1 Rollback = None"
  then show "load_csv_to_postgres read_csv drv csv_path log =
        Inr (Failed filename table_name e, l1 @ [Rollback])"
    unfolding assms by (elim conjE) (rule load_create_error; assumption)
next
  assume "read_csv csv_path = Inr df \<and> create_table drv log table_name df = Inr l1
        \<and> insert_data drv l1 table_name df = Inl (e, l2) \<and> drv l2 Rollback = None"
  then show "load_csv_to_postgres read_csv drv csv_path log =
        Inr (Failed filename table_name e, l2 @ [Rollback])"
    unfolding assms by (elim conjE) (rule load_insert_error; assumption)
next
  assume "read_csv csv_path = Inr df \<and> create_table drv log table_name df = Inr l1
        \<and> insert_data drv l1 table_name df = Inr (n, l2) \<and> drv l2 Commit = None"
  then show "load_csv_to_postgres read_csv drv csv_path log =
        Inr (Success filename table_name n (length (columns df)), l2 @ [Commit])"
    unfolding assms by (elim conjE) (rule load_success; assumption)
next
  assume "read_csv csv_path = Inr df \<and> create_table drv log table_name df = Inr l1
        \<and> insert_data drv l1 table_name df = Inr (n, l2) \<and> drv l2 Commit = Some e
        \<and> drv (l2 @ [Commit]) Rollback = None"
  then show "load_csv_to_postgres read_csv drv csv_path log =
        Inr (Failed filename table_name e, l2 @ [Commit, Rollback])"
    unfolding assms by (elim conjE) (rule load_commit_error; assumption)
next
  assume "load_csv_to_postgres read_csv drv csv_path log = Inr (r, l)"
  then show "\<exists>cs. l = log @ cs
          \<and> count_list cs Rollback = (if status r = ''failed'' then 1 else 0)
          \<and> (status r = ''success'' \<longrightarrow> cs \<noteq> [] \<and> last cs = Commit)"
    by (rule load_calls)
next
  assume "\<forall>h. drv h Rollback = None"
  then show "\<exists>rs log'. process_files read_csv drv csv_files results log = Inr (results @ rs, log')
          \<and> length rs = length csv_files
          \<and> map result_filename rs = map basename csv_files"
    by (rule process_files_returns[where drv = drv])
next
  assume "(\<forall>h. drv h Rollback = None) \<and> (\<forall>h h' c. drv h c = drv h' c)"
  then have "\<forall>h. drv h Rollback = None" and "\<forall>h h' c. drv h c = drv h' c"
    by (rule conjunct1, rule conjunct2)
  then show "\<exists>rs log'. process_files read_csv drv csv_files results log = Inr (results @ rs, log')
          \<and> list_all2 (\<lambda>f r. \<exists>l. load_csv_to_postgres read_csv drv f [] = Inr (r, l))
                csv_files rs"
    by (rule process_files_independent[where drv = drv])
next
  assume "read_csv csv_path = Inl e \<and> drv log Rollback = Some e'"
  then show "load_csv_to_postgres read_csv drv csv_path log = Inl (e', log @ [Rollback])"
    by (elim conjE) (rule load_parse_error_rollback_raises; assumption)
next
  assume "read_csv csv_path = Inr df \<and> create_table drv log table_name df = Inl (e, l1)
        \<and> drv l1 Rollback = Some e'"
  then show "load_csv_to_postgres read_csv drv csv_path log = Inl (e', l1 @ [Rollback])"
    unfolding assms by (elim conjE) (rule load_create_error_rollback_raises; assumption)
next
  assume "read_csv csv_path = Inr df \<and> create_table drv log table_name df = Inr l1
        \<and> insert_data drv l1 table_name df = Inl (e, l2) \<and> drv l2 Rollback = Some e'"
  then show "load_csv_to_postgres read_csv drv csv_path log = Inl (e', l2 @ [Rollback])"
    unfolding assms by (elim conjE) (rule load_insert_error_rollback_raises; assumption)
next
  assume "read_csv csv_path = Inr df \<and> create_table drv log table_name df = Inr l1
        \<and> insert_data drv l1 table_name df = Inr (n, l2) \<and> drv l2 Commit = Some e
        \<and> drv (l2 @ [Commit]) Rollback = Some e'"
  then show "load_csv_to_postgres read_csv drv csv_path log = Inl (e', l2 @ [Commit, Rollback])"
    unfolding assms by (elim conjE) (rule load_commit_error_rollback_raises; assumption)
next
  assume "load_csv_to_postgres read_csv drv csv_path log = Inl (e', l)"
  then show "\<exists>cs. l = log @ cs @ [Rollback]
          \<and> count_list (cs @ [Rollback]) Rollback = 1
          \<and> drv (log @ cs) Rollback = Some e'"
    by (rule load_raises_calls)
next
  assume "process_files read_csv drv files_before results log = Inr (rs, l)
        \<and> load_csv_to_postgres read_csv drv csv_file l = Inl x"
  then show "process_files read_csv drv (files_before @ csv_file # files_after) results log = Inl x"
    by (elim conjE) (rule process_files_stops; assumption)
qed

theorem C3_load_csv_to_postgres_witness:
  "load_csv_to_postgres example_reader accept_all ''data/b.csv'' [] =
     Inr (Failed ''b.csv'' ''b'' ''parse error'', [Rollback])
   \<and> load_csv_to_postgres example_reader accept_all ''data/a.csv'' [] =
       Inr (Success ''a.csv'' ''a'' 2 2,
            [Execute (drop_query ''a''),
             Execute (create_query ''a''
               (join ('','' @ nl @ ''    '') [dq @ ''x'' @ dq @ '' TEXT'', dq @ ''y'' @ dq @ '' TEXT''])),
             ExecuteMany (insert_query ''a'' [''x'', ''y''])
               [[Val ''u'', Val ''v''], [Val ''w'', Val ''z'']],
             Commit])
   \<and> (\<exists>rs log'. process_files example_reader accept_all [''data/a.csv'', ''data/b.csv''] [] []
                     = Inr (rs, log')
          \<and> length rs = 2)
   \<and> load_csv_to_postgres example_reader connection_lost ''data/a.csv'' [] =
       Inl (''connection already closed'', [Execute (drop_query ''a''), Rollback])
   \<and> process_files example_reader connection_lost [''data/a.csv'', ''data/b.csv''] [] [] =
       Inl (''connection already closed'', [Execute (drop_query ''a''), Rollback])"
proof (intro conjI)
  note b = C3_load_csv_to_postgres[OF example_names(1) example_names(2),
      where read_csv = example_reader and drv = accept_all and log = "[]"]
  have hb: "example_reader ''data/b.csv'' = Inl ''parse error'' \<and> accept_all [] Rollback = None"
    by (intro conjI example_reader_files(1) accept_all_accepts)
  have "load_csv_to_postgres example_reader accept_all ''data/b.csv'' [] =
     Inr (Failed ''b.csv'' ''b'' ''parse error'', [] @ [Rollback])"
    by (rule b[THEN conjunct1, THEN mp, OF hb])
  then show "load_csv_to_postgres example_reader accept_all ''data/b.csv'' [] =
     Inr (Failed ''b.csv'' ''b'' ''parse error'', [Rollback])"
    unfolding append.simps .
next
  note a = C3_load_csv_to_postgres[OF example_names(3) example_names(4),
      where read_csv = example_reader and drv = accept_all and log = "[]"]
  let ?l1 = "[Execute (drop_query ''a''),
      Execute (create_query ''a''
        (join ('','' @ nl @ ''    '') [dq @ ''x'' @ dq @ '' TEXT'', dq @ ''y'' @ dq @ '' TEXT'']))]"
  let ?l2 = "[Execute (drop_query ''a''),
      Execute (create_query ''a''
        (join ('','' @ nl @ ''    '') [dq @ ''x'' @ dq @ '' TEXT'', dq @ ''y'' @ dq @ '' TEXT''])),
      ExecuteMany (insert_query ''a'' [''x'', ''y''])
        [[Val ''u'', Val ''v''], [Val ''w'', Val ''z'']]]"
  have ha: "example_reader ''data/a.csv'' = Inr frame_xy
        \<and> create_table accept_all [] ''a'' frame_xy = Inr ?l1
        \<and> insert_data accept_all ?l1 ''a'' frame_xy = Inr (2, ?l2)
        \<and> accept_all ?l2 Commit = None"
    by (intro conjI example_reader_files(2) create_table_xy_example insert_data_xy_example
          accept_all_accepts)
  have "load_csv_to_postgres example_reader accept_all ''data/a.csv'' [] =
       Inr (Success ''a.csv'' ''a'' 2 (length (columns frame_xy)), ?l2 @ [Commit])"
    by (rule a[THEN conjunct2, THEN conjunct2, THEN conjunct2, THEN conjunct1, THEN mp, OF ha])
  then show "load_csv_to_postgres example_reader accept_all ''data/a.csv'' [] =
       Inr (Success ''a.csv'' ''a'' 2 2,
            [Execute (drop_query ''a''),
             Execute (create_query ''a''
               (join ('','' @ nl @ ''    '') [dq @ ''x'' @ dq @ '' TEXT'', dq @ ''y'' @ dq @ '' TEXT''])),
             ExecuteMany (insert_query ''a'' [''x'', ''y''])
               [[Val ''u'', Val ''v''], [Val ''w'', Val ''z'']],
             Commit])"
    unfolding frame_facts(3) append.simps .
next
  note p = C3_load_csv_to_postgres[OF example_names(3) example_names(4),
      where read_csv = example_reader and drv = accept_all and log = "[]"
        and csv_files = "[''data/a.csv'', ''data/b.csv'']" and results = "[]"]
  have "\<exists>rs log'. process_files example_reader accept_all [''data/a.csv'', ''data/b.csv''] [] []
                     = Inr ([] @ rs, log')
          \<and> length rs = length [''data/a.csv'', ''data/b.csv'']
          \<and> map result_filename rs = map basename [''data/a.csv'', ''data/b.csv'']"
    by (rule p[THEN conjunct2, THEN conjunct2, THEN conjunct2, THEN conjunct2, THEN conjunct2,
          THEN conjunct2, THEN conjunct1, THEN mp, OF accept_all_rollback])
  then obtain rs log' where
    1: "process_files example_reader accept_all [''data/a.csv'', ''data/b.csv''] [] []
          = Inr ([] @ rs, log')"
    and 2: "length rs = length [''data/a.csv'', ''data/b.csv'']"
    by (elim exE conjE)
  have "process_files example_reader accept_all [''data/a.csv'', ''data/b.csv''] [] []
          = Inr (rs, log') \<and> length rs = 2"
    using 1 2 unfolding append.simps list.size by simp
  then show "\<exists>rs log'. process_files example_reader accept_all [''data/a.csv'', ''data/b.csv''] [] []
                     = Inr (rs, log')
          \<and> length rs = 2"
    by (intro exI)
next
  note c = C3_load_csv_to_postgres[OF example_names(3) example_names(4),
      where read_csv = example_reader and drv = connection_lost and log = "[]"]
  have hc: "example_reader ''data/a.csv'' = Inr frame_xy
        \<and> create_table connection_lost [] ''a'' frame_xy =
            Inl (''connection already closed'', [Execute (drop_query ''a'')])
        \<and> connection_lost [Execute (drop_query ''a'')] Rollback = Some ''connection already closed''"
    by (intro conjI example_reader_files(2) create_table_lost_example connection_lost_answers)
  have "load_csv_to_postgres example_reader connection_lost ''data/a.csv'' [] =
       Inl (''connection already closed'', [Execute (drop_query ''a'')] @ [Rollback])"
    by (rule c[THEN conjunct2, THEN conjunct2, THEN conjunct2, THEN conjunct2, THEN conjunct2,
          THEN conjunct2, THEN conjunct2, THEN conjunct2, THEN conjunct2, THEN conjunct1,
          THEN mp, OF hc])
  then show "load_csv_to_postgres example_reader connection_lost ''data/a.csv'' [] =
       Inl (''connection already closed'', [Execute (drop_query ''a''), Rollback])"
    unfolding append.simps .
next
  note s = C3_load_csv_to_postgres[OF example_names(3) example_names(4),
      where read_csv = example_reader and drv = connection_lost and log = "[]"
        and files_before = "[]" and results = "[]" and csv_file = "''data/a.csv''"
        and files_after = "[''data/b.csv'']"]
  have hs: "process_files example_reader connection_lost [] [] [] = Inr ([], [])
        \<and> load_csv_to_postgres example_reader connection_lost ''data/a.csv'' [] =
            Inl (''connection already closed'', [Execute (drop_query ''a''), Rollback])"
    by (intro conjI process_files.simps(1) load_lost_example)
  have "process_files example_reader connection_lost ([] @ ''data/a.csv'' # [''data/b.csv'']) [] [] =
       Inl (''connection already closed'', [Execute (drop_query ''a''), Rollback])"
    by (rule s[THEN conjunct2, THEN conjunct2, THEN conjunct2, THEN conjunct2, THEN conjunct2,
          THEN conjunct2, THEN conjunct2, THEN conjunct2, THEN conjunct2, THEN conjunct2,
          THEN conjunct2, THEN conjunct2, THEN conjunct2, THEN mp, OF hs])
  then show "process_files example_reader connection_lost [''data/a.csv'', ''data/b.csv''] [] [] =
       Inl (''connection already closed'', [Execute (drop_query ''a''), Rollback])"
    unfolding append.simps .
qed

end
